theory Spec2Isabelle
  imports
    Complex_Main
    "HOL-Library.AList"
    "HOL-Library.Char_ord"
    "HOL-Library.List_Lexorder"
    "HOL-Library.Option_ord"
    "HOL-Library.Sublist"
begin

section \<open>JSON values and Python dictionaries\<close>

text \<open>
  The connector handles what \<^verbatim>\<open>json\<close> decodes: \<^verbatim>\<open>None\<close>, booleans, integers, floats,
  strings, lists and dictionaries with string keys. A float is carried by its
  \<^verbatim>\<open>repr()\<close>, which determines it. A string is a list of characters, each a code
  point below 256; strings are compared as Python compares them, code point by code
  point (the lexicographic order on lists over the order on characters). A dictionary
  is the list of its items in insertion order.
\<close>

datatype json =
    JNull
  | JBool bool
  | JInt int
  | JFloat string
  | JStr string
  | JList "json list"
  | JDict "(string \<times> json) list"

type_synonym pydict = "(string \<times> json) list"

text \<open>
  \<^verbatim>\<open>dict(items)\<close>: the pairs are inserted from left to right; inserting a key that is
  already there replaces its value and keeps its position.
\<close>

definition py_dict :: "(string \<times> 'v) list \<Rightarrow> (string \<times> 'v) list" where
  "py_dict items = foldl (\<lambda>acc (k, v). AList.update k v acc) [] items"

text \<open>
  \<^verbatim>\<open>d.get(k)\<close>, with \<open>None\<close> for a missing key (the keys of a dictionary are distinct,
  so the first item with the key is the only one).
\<close>

definition py_get :: "pydict \<Rightarrow> string \<Rightarrow> json option" where
  "py_get d k = map_of d k"

text \<open>Truth value testing (\<^verbatim>\<open>if v:\<close>).\<close>

fun truthy :: "json \<Rightarrow> bool" where
  "truthy JNull = False"
| "truthy (JBool b) = b"
| "truthy (JInt i) = (i \<noteq> 0)"
| "truthy (JFloat r) = (r \<noteq> ''0.0'' \<and> r \<noteq> ''-0.0'')"
| "truthy (JStr s) = (s \<noteq> [])"
| "truthy (JList xs) = (xs \<noteq> [])"
| "truthy (JDict d) = (d \<noteq> [])"

text \<open>\<^verbatim>\<open>sep.join(parts)\<close>.\<close>

fun join :: "string \<Rightarrow> string list \<Rightarrow> string" where
  "join sep [] = []"
| "join sep [s] = s"
| "join sep (s # t # ss) = s @ sep @ join sep (t # ss)"

subsection \<open>\<^verbatim>\<open>json.dumps\<close> with its default settings\<close>

definition digit_char :: "nat \<Rightarrow> char" where
  "digit_char n = ''0123456789abcdef'' ! (n mod 16)"

function str_nat :: "nat \<Rightarrow> string" where
  "str_nat n = (if n < 10 then [digit_char n] else str_nat (n div 10) @ [digit_char (n mod 10)])"
  by pat_completeness auto
termination
  by (relation "measure id") auto

definition str_int :: "int \<Rightarrow> string" where
  "str_int i = (if i < 0 then CHR ''-'' # str_nat (nat (- i)) else str_nat (nat i))"

text \<open>
  \<^verbatim>\<open>ensure_ascii\<close> is on: the quote, the backslash and the control characters with a
  short form are escaped by it, every other character outside the range from the space
  to the tilde as \<^verbatim>\<open>\u00XX\<close>.
\<close>

definition escape_char :: "char \<Rightarrow> string" where
  "escape_char c =
     (if c = CHR 0x22 then [CHR 0x5C, CHR 0x22]
      else if c = CHR 0x5C then [CHR 0x5C, CHR 0x5C]
      else if c = CHR 0x0A then [CHR 0x5C, CHR ''n'']
      else if c = CHR 0x0D then [CHR 0x5C, CHR ''r'']
      else if c = CHR 0x09 then [CHR 0x5C, CHR ''t'']
      else if c = CHR 0x08 then [CHR 0x5C, CHR ''b'']
      else if c = CHR 0x0C then [CHR 0x5C, CHR ''f'']
      else if CHR '' '' \<le> c \<and> c \<le> CHR ''~'' then [c]
      else [CHR 0x5C, CHR ''u'', CHR ''0'', CHR ''0'',
            digit_char (of_char c div 16), digit_char (of_char c mod 16)])"

definition dumps_str :: "string \<Rightarrow> string" where
  "dumps_str s = [CHR 0x22] @ concat (map escape_char s) @ [CHR 0x22]"

definition dumps_float :: "string \<Rightarrow> string" where
  "dumps_float r =
     (if r = ''nan'' then ''NaN'' else if r = ''inf'' then ''Infinity''
      else if r = ''-inf'' then ''-Infinity'' else r)"

fun json_dumps :: "json \<Rightarrow> string" where
  "json_dumps JNull = ''null''"
| "json_dumps (JBool b) = (if b then ''true'' else ''false'')"
| "json_dumps (JInt i) = str_int i"
| "json_dumps (JFloat r) = dumps_float r"
| "json_dumps (JStr s) = dumps_str s"
| "json_dumps (JList xs) = ''['' @ join '', '' (map json_dumps xs) @ '']''"
| "json_dumps (JDict kvs) =
     ''{'' @ join '', '' (map (\<lambda>(k, v). dumps_str k @ '': '' @ json_dumps v) kvs) @ ''}''"

section \<open>The flattener\<close>

text \<open>
  \<^verbatim>\<open>flatten_dict(d, parent_key='', sep='_')\<close>. \<open>flatten_items\<close> is the loop that fills
  \<^verbatim>\<open>items\<close>: one dictionary entry after the other, a nested dictionary contributing the
  items of its own flattened dictionary, a list its \<^verbatim>\<open>json.dumps\<close> text (\<^verbatim>\<open>None\<close> when it
  is empty), anything else itself. \<open>flatten_dict\<close> returns \<^verbatim>\<open>dict(items)\<close>.
\<close>

fun flatten_items :: "pydict \<Rightarrow> string \<Rightarrow> string \<Rightarrow> pydict" where
  "flatten_items [] parent_key sep = []"
| "flatten_items ((k, v) # rest) parent_key sep =
     (let new_key = (if parent_key \<noteq> [] then parent_key @ sep @ k else k) in
        (case v of
           JDict d' \<Rightarrow> py_dict (flatten_items d' new_key sep)
         | JList xs \<Rightarrow> [(new_key, if xs \<noteq> [] then JStr (json_dumps v) else JNull)]
         | _ \<Rightarrow> [(new_key, v)])
        @ flatten_items rest parent_key sep)"

definition flatten_dict :: "pydict \<Rightarrow> string \<Rightarrow> string \<Rightarrow> pydict" where
  "flatten_dict d parent_key sep = py_dict (flatten_items d parent_key sep)"

section \<open>The connector and its surroundings\<close>

text \<open>
  The SyncState, as the connector writes it: the three keys of the dictionary handed to
  \<^verbatim>\<open>op.checkpoint\<close>. The state a run starts from is \<open>None\<close> for the empty dictionary of a
  first sync, and such a dictionary otherwise.
\<close>

record sync_state =
  last_sync_date :: "string option"
  total_processed :: int
  last_cursor :: "int option"

text \<open>
  The configuration. \<^verbatim>\<open>limit\<close> and \<^verbatim>\<open>max_records\<close> are given as the integers that
  \<^verbatim>\<open>int(...)\<close> reads from them; \<open>None\<close> is a key that is missing.
\<close>

record configuration =
  cfg_api_key :: "string option"
  cfg_limit :: "int option"
  cfg_max_records :: "int option"
  cfg_sync_mode :: "string option"

text \<open>The query parameters of a request (\<^verbatim>\<open>params\<close>).\<close>

record params =
  api_key :: string
  limit :: int
  search :: "string option"
  skip :: "int option"

datatype error =
    ValueError string
  | RequestException
  | TypeError
  | RuntimeError error

datatype level = Info | Warning | Severe

text \<open>The log lines of the connector, one constructor for each, with what it prints.\<close>

datatype log_msg =
    Starting_sync
  | Incremental_since string
  | Full_sync
  | Fetching_batch int int
  | No_response
  | No_more_results
  | Processed_batch int int
  | Reached_end
  | Sync_completed int
  | Failed_to_sync error
  | Request_failed int int error
  | Retrying_in int
  | All_retries_failed
  | Upserted nat

text \<open>
  What a run does to the outside: HTTP requests, sleeps (in seconds), upserts,
  checkpoints and log lines, in the order they happen.
\<close>

datatype event =
    Get string params
  | Sleep rat
  | Upsert string pydict
  | Checkpoint sync_state
  | Log level log_msg

text \<open>
  What the outside does to a run. The \<open>k\<close>-th HTTP request of a run either fails
  (\<^verbatim>\<open>requests.get\<close> or \<^verbatim>\<open>raise_for_status\<close> raises a \<^verbatim>\<open>RequestException\<close>) or answers with
  a JSON object, of which the connector reads \<^verbatim>\<open>results\<close>: a list of records, empty also
  when the key is missing. The \<open>k\<close>-th reading of the clock returns
  \<^verbatim>\<open>datetime.now(timezone.utc).isoformat()\<close>. \<open>py_str\<close> is Python's \<^verbatim>\<open>str\<close>, which the
  connector only applies when a record's \<^verbatim>\<open>report_date\<close> is a list of eight elements.
\<close>

datatype outcome = Fails | Responds "pydict list"

record env =
  http :: "nat \<Rightarrow> outcome"
  now :: "nat \<Rightarrow> string"
  py_str :: "json \<Rightarrow> string"

record world =
  trace :: "event list"
  gets :: nat
  ticks :: nat

definition emit :: "event \<Rightarrow> world \<Rightarrow> world" where
  "emit e w = w\<lparr>trace := trace w @ [e]\<rparr>"

definition read_clock :: "env \<Rightarrow> world \<Rightarrow> string \<times> world" where
  "read_clock env w = (now env (ticks w), w\<lparr>ticks := ticks w + 1\<rparr>)"

text \<open>\<^verbatim>\<open>requests.get(base_url, params=params, timeout=30)\<close> and \<^verbatim>\<open>raise_for_status()\<close>.\<close>

definition http_get :: "env \<Rightarrow> string \<Rightarrow> params \<Rightarrow> world \<Rightarrow> outcome \<times> world" where
  "http_get env url ps w = (http env (gets w), (emit (Get url ps) w)\<lparr>gets := gets w + 1\<rparr>)"

subsection \<open>Configuration\<close>

definition validate_configuration :: "configuration \<Rightarrow> error + unit" where
  "validate_configuration cfg =
     (case cfg_api_key cfg of
        None \<Rightarrow> Inl (ValueError ''Missing required configuration value: api_key'')
      | Some key \<Rightarrow>
          if key = [] then Inl (ValueError ''Missing required configuration value: api_key'')
          else Inr ())"

subsection \<open>The retry client\<close>

text \<open>
  \<^verbatim>\<open>make_api_request_with_retry\<close>: \<open>attempts_from\<close> is the \<^verbatim>\<open>for attempt in
  range(max_retries)\<close> loop from \<open>attempt\<close> on. A response that passed
  \<^verbatim>\<open>raise_for_status\<close> is returned; a failure is logged and, unless it was the last
  attempt, followed by a sleep of \<^verbatim>\<open>2 ** attempt\<close> seconds; the last failure is raised
  again. When the loop runs out (it does so only without any attempt) the result is
  \<^verbatim>\<open>None\<close>.
\<close>

function attempts_from ::
  "env \<Rightarrow> string \<Rightarrow> params \<Rightarrow> int \<Rightarrow> int \<Rightarrow> world \<Rightarrow> (error + pydict list option) \<times> world"
where
  "attempts_from env url ps max_retries attempt w =
     (if attempt < max_retries then
        (case http_get env url ps w of
           (Responds response, w1) \<Rightarrow> (Inr (Some response), w1)
         | (Fails, w1) \<Rightarrow>
             (let w2 = emit (Log Warning (Request_failed (attempt + 1) max_retries RequestException)) w1
              in if attempt < max_retries - 1 then
                   (let wait_time = 2 ^ nat attempt;
                        w3 = emit (Log Info (Retrying_in wait_time)) w2;
                        w4 = emit (Sleep (of_int wait_time)) w3
                    in attempts_from env url ps max_retries (attempt + 1) w4)
                 else (Inl RequestException, emit (Log Severe All_retries_failed) w2)))
      else (Inr None, w))"
  by pat_completeness auto
termination
  by (relation "measure (\<lambda>(env, url, ps, max_retries, attempt, w). nat (max_retries - attempt))") auto

declare attempts_from.simps [simp del]

definition make_api_request_with_retry ::
  "env \<Rightarrow> string \<Rightarrow> params \<Rightarrow> int \<Rightarrow> world \<Rightarrow> (error + pydict list option) \<times> world"
where
  "make_api_request_with_retry env base_url ps max_retries w =
     attempts_from env base_url ps max_retries 0 w"

subsection \<open>The cursor extractor\<close>

text \<open>
  \<^verbatim>\<open>len(report_date)\<close>: a number has no length (\<^verbatim>\<open>TypeError\<close>).
\<close>

fun py_len :: "json \<Rightarrow> error + nat" where
  "py_len (JStr s) = Inr (length s)"
| "py_len (JList xs) = Inr (length xs)"
| "py_len (JDict d) = Inr (length d)"
| "py_len v = Inl TypeError"

text \<open>
  The three slices and the f-string, for a \<^verbatim>\<open>report_date\<close> of length 8. A string gives
  \<^verbatim>\<open>YYYY-MM-DDT00:00:00Z\<close> from its characters, whatever they are. The slices of a list
  are lists, which the f-string prints with \<^verbatim>\<open>str\<close>; a dictionary cannot be sliced (a
  \<^verbatim>\<open>TypeError\<close>; a \<^verbatim>\<open>KeyError\<close> from Python 3.12 on), and neither is caught by the
  \<^verbatim>\<open>except (ValueError, IndexError)\<close> around them.
\<close>

fun iso_of :: "env \<Rightarrow> json \<Rightarrow> error + string" where
  "iso_of env (JStr s) =
     Inr (take 4 s @ ''-'' @ take 2 (drop 4 s) @ ''-'' @ take 2 (drop 6 s) @ ''T00:00:00Z'')"
| "iso_of env (JList xs) =
     Inr (py_str env (JList (take 4 xs)) @ ''-'' @ py_str env (JList (take 2 (drop 4 xs))) @ ''-''
          @ py_str env (JList (take 2 (drop 6 xs))) @ ''T00:00:00Z'')"
| "iso_of env v = Inl TypeError"

text \<open>The \<^verbatim>\<open>for record in records\<close> loop of \<^verbatim>\<open>get_latest_report_date\<close>, with \<^verbatim>\<open>latest_date\<close>.\<close>

fun latest_loop :: "env \<Rightarrow> pydict list \<Rightarrow> string option \<Rightarrow> error + string option" where
  "latest_loop env [] latest_date = Inr latest_date"
| "latest_loop env (record # records) latest_date =
     (case py_get record ''report_date'' of
        None \<Rightarrow> latest_loop env records latest_date
      | Some report_date \<Rightarrow>
          if truthy report_date then
            (case py_len report_date of
               Inl e \<Rightarrow> Inl e
             | Inr n \<Rightarrow>
                 if n = 8 then
                   (case iso_of env report_date of
                      Inl e \<Rightarrow> Inl e
                    | Inr iso_date \<Rightarrow>
                        if latest_date = None \<or> the latest_date < iso_date
                        then latest_loop env records (Some iso_date)
                        else latest_loop env records latest_date)
                 else latest_loop env records latest_date)
          else latest_loop env records latest_date)"

definition get_latest_report_date :: "env \<Rightarrow> pydict list \<Rightarrow> world \<Rightarrow> (error + string) \<times> world" where
  "get_latest_report_date env records w =
     (case latest_loop env records None of
        Inl e \<Rightarrow> (Inl e, w)
      | Inr latest_date \<Rightarrow>
          (case latest_date of
             Some d \<Rightarrow> if d \<noteq> [] then (Inr d, w) else (case read_clock env w of (t, w1) \<Rightarrow> (Inr t, w1))
           | None \<Rightarrow> (case read_clock env w of (t, w1) \<Rightarrow> (Inr t, w1))))"

subsection \<open>Processing a page\<close>

text \<open>
  The first loop of \<^verbatim>\<open>process_food_enforcement_records\<close>: every record is flattened and
  given its two metadata fields. Flattening a dictionary does not raise, so the
  \<^verbatim>\<open>except\<close> branch that skips a record is never taken.
\<close>

fun flatten_records :: "env \<Rightarrow> pydict list \<Rightarrow> world \<Rightarrow> pydict list \<times> world" where
  "flatten_records env [] w = ([], w)"
| "flatten_records env (record # records) w =
     (let flattened_record = flatten_dict record [] ''_'' in
      case read_clock env w of (t, w1) \<Rightarrow>
        (let with_synced = AList.update ''_fivetran_synced'' (JStr t) flattened_record;
             with_deleted = AList.update ''_fivetran_deleted'' (JBool False) with_synced
         in case flatten_records env records w1 of
              (processed_records, w2) \<Rightarrow> (with_deleted # processed_records, w2)))"

definition upsert_all :: "pydict list \<Rightarrow> world \<Rightarrow> world" where
  "upsert_all processed_records w =
     foldl (\<lambda>w' record. emit (Upsert ''food_enforcement_records'' record) w') w processed_records"

definition process_food_enforcement_records :: "env \<Rightarrow> pydict list \<Rightarrow> world \<Rightarrow> int \<times> world" where
  "process_food_enforcement_records env records w =
     (case flatten_records env records w of
        (processed_records, w1) \<Rightarrow>
          (int (length processed_records),
           if processed_records \<noteq> []
           then emit (Log Info (Upserted (length processed_records))) (upsert_all processed_records w1)
           else w1))"

subsection \<open>The sync loop\<close>

text \<open>
  The variables of \<^verbatim>\<open>update\<close> that the pagination loop changes: \<^verbatim>\<open>params\<close> (it gains
  \<^verbatim>\<open>skip\<close>), \<^verbatim>\<open>skip\<close>, \<^verbatim>\<open>total_processed\<close> and the \<^verbatim>\<open>results\<close> of \<^verbatim>\<open>data\<close>, the last
  response decoded (\<open>None\<close> while \<^verbatim>\<open>data\<close> is not yet bound).
  \<^verbatim>\<open>current_batch_processed\<close> is only ever added to and never read, so it is left out.
\<close>

record locals =
  params_v :: params
  skip_v :: int
  total_v :: int
  data_v :: "pydict list option"

datatype step = Continue locals | Break locals | Raise error

definition base_url :: string where
  "base_url = ''https://api.fda.gov/food/enforcement.json''"

text \<open>
  One pass through the body of \<^verbatim>\<open>while total_processed < max_records\<close>: it ends in a
  \<^verbatim>\<open>break\<close>, in an exception, or at the bottom of the body, after the checkpoint and
  the pause of a quarter of a second.
\<close>

definition sync_step :: "env \<Rightarrow> locals \<Rightarrow> world \<Rightarrow> step \<times> world" where
  "sync_step env v w =
     (let ps = (if 0 < skip_v v then (params_v v)\<lparr>skip := Some (skip_v v)\<rparr> else params_v v);
          w1 = emit (Log Info (Fetching_batch (skip_v v) (limit ps))) w
      in case make_api_request_with_retry env base_url ps 3 w1 of
           (Inl e, w2) \<Rightarrow> (Raise e, w2)
         | (Inr None, w2) \<Rightarrow> (Break (v\<lparr>params_v := ps\<rparr>), emit (Log Warning No_response) w2)
         | (Inr (Some results), w2) \<Rightarrow>
             (let v1 = v\<lparr>params_v := ps, data_v := Some results\<rparr> in
              if results = [] then (Break v1, emit (Log Info No_more_results) w2)
              else
                (case process_food_enforcement_records env results w2 of
                   (batch_processed, w3) \<Rightarrow>
                     (let v2 = v1\<lparr>total_v := total_v v1 + batch_processed\<rparr>;
                          w4 = emit (Log Info (Processed_batch batch_processed (total_v v2))) w3
                      in if int (length results) < limit ps
                         then (Break v2, emit (Log Info Reached_end) w4)
                         else
                           (let v3 = v2\<lparr>skip_v := skip_v v2 + limit ps\<rparr> in
                            case get_latest_report_date env results w4 of
                              (Inl e, w5) \<Rightarrow> (Raise e, w5)
                            | (Inr latest_report_date, w5) \<Rightarrow>
                                (let new_state =
                                       \<lparr>last_sync_date = Some latest_report_date,
                                        total_processed = total_v v3,
                                        last_cursor = Some (skip_v v3)\<rparr>;
                                     w6 = emit (Checkpoint new_state) w5;
                                     w7 = emit (Sleep (1 / 4)) w6
                                 in (Continue v3, w7)))))))"

text \<open>
  Every record of a page is processed, so a page that is not empty adds at least one to
  \<^verbatim>\<open>total_processed\<close>: the loop ends.
\<close>

lemma flatten_records_length:
  "length (fst (flatten_records env records w)) = length records"
proof (induction records arbitrary: w)
  case Nil
  then show ?case by simp
next
  case (Cons r records)
  obtain t w1 where rc: "read_clock env w = (t, w1)"
    by (cases "read_clock env w")
  obtain ps w2 where fr: "flatten_records env records w1 = (ps, w2)"
    by (cases "flatten_records env records w1")
  from Cons.IH [of w1] fr have "length ps = length records"
    by simp
  then show ?case
    by (simp add: rc fr Let_def)
qed

lemma process_count:
  "fst (process_food_enforcement_records env records w) = int (length records)"
  using flatten_records_length [of env records w]
  by (cases "flatten_records env records w") (simp add: process_food_enforcement_records_def)

lemma sync_step_Continue_total:
  assumes "sync_step env v w = (Continue v', w')"
  shows "total_v v < total_v v'"
proof -
  have pos: "process_food_enforcement_records env results w0 = (n, w1) \<Longrightarrow> results \<noteq> [] \<Longrightarrow> 0 < n"
    for results w0 n w1
    using process_count [of env results w0] by simp
  show ?thesis
    using assms
    by (auto simp: sync_step_def Let_def
             split: prod.splits sum.splits option.splits if_splits
             dest: pos)
qed

function sync_loop :: "env \<Rightarrow> int \<Rightarrow> locals \<Rightarrow> world \<Rightarrow> (error + locals) \<times> world" where
  "sync_loop env max_records v w =
     (if total_v v < max_records then
        (case sync_step env v w of
           (Raise e, w') \<Rightarrow> (Inl e, w')
         | (Break v', w') \<Rightarrow> (Inr v', w')
         | (Continue v', w') \<Rightarrow> sync_loop env max_records v' w')
      else (Inr v, w))"
  by pat_completeness auto
termination
  apply (relation "measure (\<lambda>(env, max_records, v, w). nat (max_records - total_v v))")
   apply simp
  apply (simp)
  apply (drule sym)
  apply (drule sync_step_Continue_total)
  apply simp
  done

declare sync_loop.simps [simp del]

subsection \<open>\<^verbatim>\<open>update\<close>\<close>

text \<open>
  The last lines of the \<^verbatim>\<open>try\<close> block: the cursor of the final checkpoint comes from the
  last response when it has results, and from the clock otherwise (also when no request
  was made).
\<close>

definition final_cursor :: "env \<Rightarrow> locals \<Rightarrow> world \<Rightarrow> (error + string) \<times> world" where
  "final_cursor env v w =
     (case data_v v of
        None \<Rightarrow> (case read_clock env w of (t, w1) \<Rightarrow> (Inr t, w1))
      | Some results \<Rightarrow>
          if results \<noteq> [] then get_latest_report_date env results w
          else (case read_clock env w of (t, w1) \<Rightarrow> (Inr t, w1)))"

text \<open>The \<^verbatim>\<open>except Exception\<close> of \<^verbatim>\<open>update\<close>: the error is logged and raised as a \<^verbatim>\<open>RuntimeError\<close>.\<close>

definition fail_sync :: "error \<Rightarrow> world \<Rightarrow> (error + unit) \<times> world" where
  "fail_sync e w = (Inl (RuntimeError e), emit (Log Severe (Failed_to_sync e)) w)"

text \<open>
  The first lines of \<^verbatim>\<open>update\<close>: the settings with their defaults, the state a first
  sync starts from, and the request parameters, with the date filter when the sync is
  incremental and the state has a cursor.
\<close>

definition limit_setting :: "configuration \<Rightarrow> int" where
  "limit_setting cfg = (case cfg_limit cfg of None \<Rightarrow> 1000 | Some l \<Rightarrow> l)"

definition max_records_setting :: "configuration \<Rightarrow> int" where
  "max_records_setting cfg = (case cfg_max_records cfg of None \<Rightarrow> 10000 | Some m \<Rightarrow> m)"

definition sync_mode_setting :: "configuration \<Rightarrow> string" where
  "sync_mode_setting cfg = (case cfg_sync_mode cfg of None \<Rightarrow> ''incremental'' | Some m \<Rightarrow> m)"

definition initial_state :: "sync_state option \<Rightarrow> sync_state" where
  "initial_state state =
     (case state of
        None \<Rightarrow> \<lparr>last_sync_date = None, total_processed = 0, last_cursor = None\<rparr>
      | Some st \<Rightarrow> st)"

definition incremental :: "configuration \<Rightarrow> sync_state option \<Rightarrow> bool" where
  "incremental cfg state =
     (sync_mode_setting cfg = ''incremental'' \<and>
      (case last_sync_date (initial_state state) of None \<Rightarrow> False | Some d \<Rightarrow> d \<noteq> []))"

definition initial_params :: "configuration \<Rightarrow> sync_state option \<Rightarrow> params" where
  "initial_params cfg state =
     (let ps = \<lparr>api_key = the (cfg_api_key cfg), limit = min (limit_setting cfg) 1000,
                 search = None, skip = None\<rparr>
      in if incremental cfg state
         then ps\<lparr>search := Some (''report_date:['' @ the (last_sync_date (initial_state state))
                                  @ ''+TO+*]'')\<rparr>
         else ps)"

definition initial_locals :: "configuration \<Rightarrow> sync_state option \<Rightarrow> locals" where
  "initial_locals cfg state =
     \<lparr>params_v = initial_params cfg state, skip_v = 0,
      total_v = total_processed (initial_state state), data_v = None\<rparr>"

definition announce :: "configuration \<Rightarrow> sync_state option \<Rightarrow> world \<Rightarrow> world" where
  "announce cfg state w =
     (if incremental cfg state
      then emit (Log Info (Incremental_since (the (last_sync_date (initial_state state))))) w
      else emit (Log Info Full_sync) w)"

definition update :: "env \<Rightarrow> configuration \<Rightarrow> sync_state option \<Rightarrow> world \<Rightarrow> (error + unit) \<times> world" where
  "update env cfg state w =
     (let w1 = emit (Log Info Starting_sync) w in
      case validate_configuration cfg of
        Inl e \<Rightarrow> (Inl e, w1)
      | Inr _ \<Rightarrow>
          (case sync_loop env (max_records_setting cfg) (initial_locals cfg state)
                  (announce cfg state w1) of
             (Inl e, w3) \<Rightarrow> fail_sync e w3
           | (Inr v, w3) \<Rightarrow>
               (case final_cursor env v w3 of
                  (Inl e, w4) \<Rightarrow> fail_sync e w4
                | (Inr latest_report_date, w4) \<Rightarrow>
                    (let final_state =
                           \<lparr>last_sync_date = Some latest_report_date,
                            total_processed = total_v v,
                            last_cursor = Some (skip_v v)\<rparr>;
                         w5 = emit (Checkpoint final_state) w4;
                         w6 = emit (Log Info (Sync_completed (total_v v))) w5
                     in (Inr (), w6)))))"

text \<open>The events of a run: what \<^verbatim>\<open>update\<close> appends to the trace it started with.\<close>

definition run_trace :: "env \<Rightarrow> configuration \<Rightarrow> sync_state option \<Rightarrow> world \<Rightarrow> event list" where
  "run_trace env cfg state w = drop (length (trace w)) (trace (snd (update env cfg state w)))"

fun checkpoints_of :: "event list \<Rightarrow> sync_state list" where
  "checkpoints_of [] = []"
| "checkpoints_of (Checkpoint s # es) = s # checkpoints_of es"
| "checkpoints_of (e # es) = checkpoints_of es"

fun sleeps_of :: "event list \<Rightarrow> rat list" where
  "sleeps_of [] = []"
| "sleeps_of (Sleep d # es) = d # sleeps_of es"
| "sleeps_of (e # es) = sleeps_of es"

fun gets_of :: "event list \<Rightarrow> params list" where
  "gets_of [] = []"
| "gets_of (Get url ps # es) = ps # gets_of es"
| "gets_of (e # es) = gets_of es"

fun logs_of :: "event list \<Rightarrow> log_msg list" where
  "logs_of [] = []"
| "logs_of (Log l m # es) = m # logs_of es"
| "logs_of (e # es) = logs_of es"

section \<open>Concrete surroundings\<close>

text \<open>Requests, clocks and servers on which the theorems below are instantiated.\<close>

definition example_ps :: params where
  "example_ps = \<lparr>api_key = ''key'', limit = 2, search = None, skip = None\<rparr>"

definition start_world :: world where
  "start_world = \<lparr>trace = [], gets = 0, ticks = 0\<rparr>"

text \<open>A server that fails twice and then answers with one record.\<close>

definition third_time_env :: env where
  "third_time_env =
     \<lparr>http = (\<lambda>k. if k < 2 then Fails else Responds [[(''recall_number'', JStr ''F-1'')]]),
      now = (\<lambda>k. ''2026-11-04T00:00:00+00:00''), py_str = (\<lambda>v. [])\<rparr>"

text \<open>Settings with a page size of one and of two records, and the default cap of 10000.\<close>

definition one_per_page :: configuration where
  "one_per_page =
     \<lparr>cfg_api_key = Some ''key'', cfg_limit = Some 1, cfg_max_records = None,
      cfg_sync_mode = None\<rparr>"

definition two_per_page :: configuration where
  "two_per_page =
     \<lparr>cfg_api_key = Some ''key'', cfg_limit = Some 2, cfg_max_records = None,
      cfg_sync_mode = None\<rparr>"

definition dated_record :: "string \<Rightarrow> pydict" where
  "dated_record d = [(''recall_number'', JStr ''F-0001-2024''), (''report_date'', JStr d)]"

text \<open>A server with three pages: records of March, then of January, then nothing.\<close>

definition regressing_env :: env where
  "regressing_env =
     \<lparr>http = (\<lambda>k. if k = 0 then Responds [dated_record ''20240315'']
                  else if k = 1 then Responds [dated_record ''20240101'']
                  else Responds []),
      now = (\<lambda>k. ''2026-11-04T12:00:00+00:00''), py_str = (\<lambda>v. [])\<rparr>"

text \<open>The same pages in the order of their dates.\<close>

definition ordered_env :: env where
  "ordered_env =
     \<lparr>http = (\<lambda>k. if k = 0 then Responds [dated_record ''20240101'']
                  else if k = 1 then Responds [dated_record ''20240315'']
                  else Responds []),
      now = (\<lambda>k. ''2026-11-04T12:00:00+00:00''), py_str = (\<lambda>v. [])\<rparr>"

text \<open>A server that answers every request with the same single record.\<close>

definition steady_env :: env where
  "steady_env =
     \<lparr>http = (\<lambda>k. Responds [dated_record ''20240101'']),
      now = (\<lambda>k. ''2026-11-04T12:00:00+00:00''), py_str = (\<lambda>v. [])\<rparr>"

text \<open>A server that answers the first request and fails from then on.\<close>

definition failing_env :: env where
  "failing_env =
     \<lparr>http = (\<lambda>k. if k = 0 then Responds [dated_record ''20240101''] else Fails),
      now = (\<lambda>k. ''2026-11-04T12:00:00+00:00''), py_str = (\<lambda>v. [])\<rparr>"

text \<open>A state left by a run that reached the default cap.\<close>

definition capped_state :: sync_state where
  "capped_state =
     \<lparr>last_sync_date = Some ''2024-01-01T00:00:00Z'', total_processed = 10000,
      last_cursor = Some 10000\<rparr>"

section \<open>Kinds of events\<close>

text \<open>What the retry client may do: requests, sleeps and its three log lines.\<close>

fun retry_event :: "event \<Rightarrow> bool" where
  "retry_event (Get url ps) = True"
| "retry_event (Sleep d) = True"
| "retry_event (Log Warning (Request_failed a m e)) = True"
| "retry_event (Log Info (Retrying_in n)) = True"
| "retry_event (Log Severe All_retries_failed) = True"
| "retry_event e = False"

text \<open>What processing a page may do: upserts and the line that counts them.\<close>

fun process_event :: "event \<Rightarrow> bool" where
  "process_event (Upsert t r) = True"
| "process_event (Log Info (Upserted n)) = True"
| "process_event e = False"

text \<open>
  A page that was processed leaves the line \<^verbatim>\<open>Processed ... records in this batch\<close> in
  the log; a page shorter than the limit also leaves \<^verbatim>\<open>Reached end of available data\<close>.
\<close>

fun is_processed :: "log_msg \<Rightarrow> bool" where
  "is_processed (Processed_batch n t) = True"
| "is_processed m = False"

definition pages_processed :: "event list \<Rightarrow> nat" where
  "pages_processed tr = length (filter is_processed (logs_of tr))"

definition short_pages :: "event list \<Rightarrow> nat" where
  "short_pages tr = count_list (logs_of tr) Reached_end"

text \<open>
  A checkpoint whose cursor is the latest date of a page that the server returned to one
  of the requests \<open>lo, ..., hi - 1\<close>.
\<close>

definition from_page :: "env \<Rightarrow> nat \<Rightarrow> nat \<Rightarrow> sync_state \<Rightarrow> bool" where
  "from_page env lo hi c \<longleftrightarrow>
     (\<exists>k r d. lo \<le> k \<and> k < hi \<and> http env k = Responds r
              \<and> latest_loop env r None = Inr (Some d) \<and> last_sync_date c = Some d)"

section \<open>The flattener in the words of the specification\<close>

text \<open>One insertion into a dictionary under construction.\<close>

abbreviation upd :: "(string \<times> 'v) list \<Rightarrow> string \<times> 'v \<Rightarrow> (string \<times> 'v) list" where
  "upd \<equiv> (\<lambda>acc (k, v). AList.update k v acc)"

text \<open>Values that are neither a list nor a dictionary.\<close>

fun scalar :: "json \<Rightarrow> bool" where
  "scalar (JList xs) = False"
| "scalar (JDict d) = False"
| "scalar v = True"

fun is_dict :: "json \<Rightarrow> bool" where
  "is_dict (JDict d) = True"
| "is_dict v = False"

text \<open>
  The leaves of a nested dictionary, in the order of traversal: every value that is not
  a dictionary, with the path of keys that leads to it.
\<close>

fun leaves :: "pydict \<Rightarrow> (string list \<times> json) list" where
  "leaves [] = []"
| "leaves ((k, v) # rest) =
     (case v of
        JDict d' \<Rightarrow> map (\<lambda>(p, x). (k # p, x)) (leaves d')
      | _ \<Rightarrow> [([k], v)])
     @ leaves rest"

text \<open>
  What is stored for a leaf: a list that is not empty as its JSON text, an empty list as
  \<^verbatim>\<open>None\<close>, a scalar unchanged.
\<close>

fun stored :: "json \<Rightarrow> json" where
  "stored (JList xs) = (if xs = [] then JNull else JStr (json_dumps (JList xs)))"
| "stored v = v"

text \<open>
  The flattened dictionary as the specification describes it: every leaf under its key
  path joined with \<^verbatim>\<open>_\<close>. Where two paths give the same key, the later leaf replaces
  the earlier one, as in any dictionary.
\<close>

definition flatten_spec :: "pydict \<Rightarrow> pydict" where
  "flatten_spec d = py_dict (map (\<lambda>(p, v). (join ''_'' p, stored v)) (leaves d))"

text \<open>A record with a nested dictionary, a list, an empty list and a scalar.\<close>

definition nested_example :: pydict where
  "nested_example =
     [(''a'', JDict [(''b'', JInt 1)]),
      (''codes'', JList [JStr ''x'', JInt 2]),
      (''none'', JList []),
      (''status'', JStr ''Ongoing'')]"

section \<open>The cursor extractor on dates that are strings\<close>

text \<open>The normalized form of a raw date of eight characters.\<close>

definition normalized :: "string \<Rightarrow> string" where
  "normalized s = take 4 s @ ''-'' @ take 2 (drop 4 s) @ ''-'' @ take 2 (drop 6 s) @ ''T00:00:00Z''"

text \<open>
  A record whose \<^verbatim>\<open>report_date\<close> is missing, a string, or a value that counts as false.
\<close>

fun string_dated :: "pydict \<Rightarrow> bool" where
  "string_dated r =
     (case py_get r ''report_date'' of
        None \<Rightarrow> True
      | Some (JStr s) \<Rightarrow> True
      | Some v \<Rightarrow> \<not> truthy v)"

text \<open>The normalized dates of a batch: one for every \<^verbatim>\<open>report_date\<close> that is a string of length 8.\<close>

fun dates_of :: "pydict list \<Rightarrow> string list" where
  "dates_of [] = []"
| "dates_of (r # rs) =
     (case py_get r ''report_date'' of
        Some (JStr s) \<Rightarrow> (if length s = 8 then [normalized s] else [])
      | _ \<Rightarrow> [])
     @ dates_of rs"

text \<open>The update of \<^verbatim>\<open>latest_date\<close> by one normalized date.\<close>

fun later :: "string option \<Rightarrow> string \<Rightarrow> string option" where
  "later None d = Some d"
| "later (Some a) d = (if a < d then Some d else Some a)"

section \<open>Basic facts\<close>

lemma emit_simps:
  "trace (emit e w) = trace w @ [e]" "gets (emit e w) = gets w" "ticks (emit e w) = ticks w"
  by (simp_all add: emit_def)

lemma attempts_from_summary:
  assumes "attempts_from env url ps m a w = (res, w')"
  shows "\<exists>tr. trace w' = trace w @ tr \<and> list_all retry_event tr \<and> ticks w' = ticks w
            \<and> gets w \<le> gets w'
            \<and> (case res of
                  Inl e \<Rightarrow> e = RequestException \<and> tr \<noteq> [] \<and> last tr = Log Severe All_retries_failed
                | Inr None \<Rightarrow> \<not> a < m \<and> tr = []
                | Inr (Some r) \<Rightarrow> Log Severe All_retries_failed \<notin> set tr \<and> gets w < gets w'
                                  \<and> http env (gets w' - 1) = Responds r)"
  using assms
proof (induction env url ps m a w arbitrary: res w' rule: attempts_from.induct)
  case (1 env url ps m a w)
  note prem = "1.prems" [unfolded attempts_from.simps [of env url ps m a w]]
  show ?case
  proof (cases "a < m")
    case False
    with prem show ?thesis by auto
  next
    case True
    note am = True
    show ?thesis
    proof (cases "http env (gets w)")
      case (Responds r)
      with am prem show ?thesis
        by (auto simp: http_get_def emit_simps)
    next
      case Fails
      show ?thesis
      proof (cases "a < m - 1")
        case False
        with am Fails prem show ?thesis
          by (auto simp: http_get_def emit_simps Let_def)
      next
        case True
        define w4 where "w4 = emit (Sleep (of_int (2 ^ nat a))) (emit (Log Info (Retrying_in (2 ^ nat a)))
            (emit (Log Warning (Request_failed (a + 1) m RequestException)) (snd (http_get env url ps w))))"
        have rec: "attempts_from env url ps m (a + 1) w4 = (res, w')"
          using am Fails True prem by (simp add: http_get_def Let_def w4_def)
        have hg: "(Fails, snd (http_get env url ps w)) = http_get env url ps w"
          using Fails by (simp add: http_get_def)
        have "\<exists>tr. trace w' = trace w4 @ tr \<and> list_all retry_event tr \<and> ticks w' = ticks w4
            \<and> gets w4 \<le> gets w'
            \<and> (case res of
                  Inl e \<Rightarrow> e = RequestException \<and> tr \<noteq> [] \<and> last tr = Log Severe All_retries_failed
                | Inr None \<Rightarrow> \<not> a + 1 < m \<and> tr = []
                | Inr (Some r) \<Rightarrow> Log Severe All_retries_failed \<notin> set tr \<and> gets w4 < gets w'
                                  \<and> http env (gets w' - 1) = Responds r)"
          unfolding w4_def
          by (rule "1.IH" [OF am hg refl refl True refl refl refl rec [unfolded w4_def]])
        then obtain tr where tr: "trace w' = trace w4 @ tr" "list_all retry_event tr" "ticks w' = ticks w4"
            "gets w4 \<le> gets w'"
            "(case res of
                  Inl e \<Rightarrow> e = RequestException \<and> tr \<noteq> [] \<and> last tr = Log Severe All_retries_failed
                | Inr None \<Rightarrow> \<not> a + 1 < m \<and> tr = []
                | Inr (Some r) \<Rightarrow> Log Severe All_retries_failed \<notin> set tr \<and> gets w4 < gets w'
                                  \<and> http env (gets w' - 1) = Responds r)"
          by blast
        have w4: "trace w4 = trace w @ [Get url ps, Log Warning (Request_failed (a + 1) m RequestException),
               Log Info (Retrying_in (2 ^ nat a)), Sleep (of_int (2 ^ nat a))]"
          "gets w4 = gets w + 1" "ticks w4 = ticks w"
          by (simp_all add: w4_def emit_simps http_get_def)
        show ?thesis
          apply (rule exI [where x = "[Get url ps, Log Warning (Request_failed (a + 1) m RequestException),
               Log Info (Retrying_in (2 ^ nat a)), Sleep (of_int (2 ^ nat a))] @ tr"])
          using tr w4 True
          by (auto split: sum.splits option.splits)
      qed
    qed
  qed
qed

lemma read_clock_simps:
  "fst (read_clock env w) = now env (ticks w)"
  "trace (snd (read_clock env w)) = trace w"
  "gets (snd (read_clock env w)) = gets w"
  by (simp_all add: read_clock_def)

lemma latest_loop_nonempty:
  assumes "latest_loop env records acc = Inr (Some d)"
    and "acc \<noteq> Some []"
  shows "d \<noteq> []"
  using assms
proof (induction env records acc rule: latest_loop.induct)
  case (1 env latest_date)
  then show ?case by simp
next
  case (2 env r records latest_date)
  have iso: "iso_of env v = Inr s \<Longrightarrow> s \<noteq> []" for v s
    by (cases v) auto
  from 2 show ?case
    by (auto split: option.splits sum.splits if_splits dest: iso)
qed

lemma get_latest_report_date_summary:
  assumes "get_latest_report_date env records w = (res, w')"
  shows "trace w' = trace w \<and> gets w' = gets w
         \<and> (case res of
               Inl e \<Rightarrow> latest_loop env records None = Inl e
             | Inr d \<Rightarrow> latest_loop env records None = Inr (Some d)
                        \<or> (latest_loop env records None = Inr None \<and> d = now env (ticks w)))"
proof (cases "latest_loop env records None")
  case (Inl e)
  with assms show ?thesis
    by (auto simp: get_latest_report_date_def)
next
  case (Inr latest_date)
  show ?thesis
  proof (cases latest_date)
    case None
    with Inr assms show ?thesis
      by (auto simp: get_latest_report_date_def read_clock_def)
  next
    case (Some d)
    with Inr have "d \<noteq> []"
      using latest_loop_nonempty [of env records None d] by simp
    with Some Inr assms show ?thesis
      by (auto simp: get_latest_report_date_def)
  qed
qed

lemma upsert_all_trace:
  "trace (upsert_all rs w) = trace w @ map (Upsert ''food_enforcement_records'') rs"
  "gets (upsert_all rs w) = gets w"
  unfolding upsert_all_def
  by (induction rs arbitrary: w) (simp_all add: emit_simps)

lemma flatten_records_world:
  "trace (snd (flatten_records env records w)) = trace w
   \<and> gets (snd (flatten_records env records w)) = gets w"
proof (induction records arbitrary: w)
  case Nil
  then show ?case by simp
next
  case (Cons r records)
  obtain t w1 where rc: "read_clock env w = (t, w1)"
    by (cases "read_clock env w")
  obtain ps w2 where fr: "flatten_records env records w1 = (ps, w2)"
    by (cases "flatten_records env records w1")
  from rc have "trace w1 = trace w" "gets w1 = gets w"
    by (auto simp: read_clock_def)
  with Cons.IH [of w1] fr show ?case
    by (simp add: rc Let_def)
qed

lemma process_summary:
  assumes "process_food_enforcement_records env records w = (n, w')"
  shows "n = int (length records) \<and> gets w' = gets w
         \<and> (\<exists>tr. trace w' = trace w @ tr \<and> list_all process_event tr)"
proof -
  obtain ps w1 where fr: "flatten_records env records w = (ps, w1)"
    by (cases "flatten_records env records w")
  have w1: "trace w1 = trace w" "gets w1 = gets w"
    using flatten_records_world [of env records w] fr by simp_all
  have n: "n = int (length records)"
    using process_count [of env records w] assms by simp
  have ups: "list_all process_event (map (Upsert ''food_enforcement_records'') ps)"
    by (induction ps) simp_all
  show ?thesis
  proof (cases "ps = []")
    case True
    with assms fr w1 n show ?thesis
      by (auto simp: process_food_enforcement_records_def)
  next
    case False
    with assms fr have "w' = emit (Log Info (Upserted (length ps))) (upsert_all ps w1)"
      by (simp add: process_food_enforcement_records_def)
    then have "trace w' = trace w @ (map (Upsert ''food_enforcement_records'') ps @ [Log Info (Upserted (length ps))])"
      and "gets w' = gets w"
      by (simp_all add: emit_simps upsert_all_trace w1)
    with n ups show ?thesis
      by (intro conjI exI [where x = "map (Upsert ''food_enforcement_records'') ps @ [Log Info (Upserted (length ps))]"]) simp_all
  qed
qed

text \<open>
  What one pass through the loop body can do, with the events it adds: the request fails
  after all attempts; the page is empty; the page is shorter than the limit; the page is
  full but its dates cannot be read; the page is full and a checkpoint is written.
\<close>

lemma sync_step_cases [consumes 1, case_names exhausted no_more short bad_date full]:
  assumes step: "sync_step env v w = (st, w')"
  obtains
    (exhausted) rtr where
      "st = Raise RequestException"
      "trace w' = trace w @ Log Info (Fetching_batch (skip_v v) (limit (params_v v))) # rtr"
      "list_all retry_event rtr" "rtr \<noteq> []" "last rtr = Log Severe All_retries_failed"
      "gets w \<le> gets w'"
  | (no_more) rtr v' where
      "st = Break v'" "data_v v' = Some []" "total_v v' = total_v v" "skip_v v' = skip_v v"
      "limit (params_v v') = limit (params_v v)"
      "trace w' = trace w @ Log Info (Fetching_batch (skip_v v) (limit (params_v v))) # rtr
                  @ [Log Info No_more_results]"
      "list_all retry_event rtr" "Log Severe All_retries_failed \<notin> set rtr"
      "gets w < gets w'" "http env (gets w' - 1) = Responds []"
  | (short) rtr ptr results v' where
      "st = Break v'" "data_v v' = Some results" "results \<noteq> []"
      "int (length results) < limit (params_v v)"
      "total_v v' = total_v v + int (length results)" "skip_v v' = skip_v v"
      "limit (params_v v') = limit (params_v v)"
      "trace w' = trace w @ Log Info (Fetching_batch (skip_v v) (limit (params_v v))) # rtr @ ptr
                  @ [Log Info (Processed_batch (int (length results)) (total_v v')),
                     Log Info Reached_end]"
      "list_all retry_event rtr" "Log Severe All_retries_failed \<notin> set rtr"
      "list_all process_event ptr"
      "gets w < gets w'" "http env (gets w' - 1) = Responds results"
  | (bad_date) rtr ptr results e where
      "st = Raise e" "latest_loop env results None = Inl e" "results \<noteq> []"
      "\<not> int (length results) < limit (params_v v)"
      "trace w' = trace w @ Log Info (Fetching_batch (skip_v v) (limit (params_v v))) # rtr @ ptr
                  @ [Log Info (Processed_batch (int (length results))
                                (total_v v + int (length results)))]"
      "list_all retry_event rtr" "Log Severe All_retries_failed \<notin> set rtr"
      "list_all process_event ptr"
      "gets w < gets w'" "http env (gets w' - 1) = Responds results"
  | (full) rtr ptr results v' d where
      "st = Continue v'" "data_v v' = Some results" "results \<noteq> []"
      "\<not> int (length results) < limit (params_v v)"
      "total_v v' = total_v v + int (length results)"
      "skip_v v' = skip_v v + limit (params_v v)"
      "limit (params_v v') = limit (params_v v)"
      "trace w' = trace w @ Log Info (Fetching_batch (skip_v v) (limit (params_v v))) # rtr @ ptr
                  @ [Log Info (Processed_batch (int (length results)) (total_v v')),
                     Checkpoint \<lparr>last_sync_date = Some d, total_processed = total_v v',
                                 last_cursor = Some (skip_v v')\<rparr>,
                     Sleep (1 / 4)]"
      "latest_loop env results None = Inr (Some d)
       \<or> latest_loop env results None = Inr None \<and> (\<exists>t. d = now env t)"
      "list_all retry_event rtr" "Log Severe All_retries_failed \<notin> set rtr"
      "list_all process_event ptr"
      "gets w < gets w'" "http env (gets w' - 1) = Responds results"
proof -
  define ps where "ps = (if 0 < skip_v v then (params_v v)\<lparr>skip := Some (skip_v v)\<rparr> else params_v v)"
  define w1 where "w1 = emit (Log Info (Fetching_batch (skip_v v) (limit ps))) w"
  have lim: "limit ps = limit (params_v v)"
    by (simp add: ps_def)
  have w1: "trace w1 = trace w @ [Log Info (Fetching_batch (skip_v v) (limit (params_v v)))]"
    "gets w1 = gets w"
    by (simp_all add: w1_def emit_simps lim)
  obtain res w2 where retry: "make_api_request_with_retry env base_url ps 3 w1 = (res, w2)"
    by (cases "make_api_request_with_retry env base_url ps 3 w1")
  from attempts_from_summary [OF retry [unfolded make_api_request_with_retry_def]]
  obtain rtr where rtr: "trace w2 = trace w1 @ rtr" "list_all retry_event rtr" "gets w1 \<le> gets w2"
    and res: "case res of
                Inl e \<Rightarrow> e = RequestException \<and> rtr \<noteq> [] \<and> last rtr = Log Severe All_retries_failed
              | Inr None \<Rightarrow> \<not> (0::int) < 3 \<and> rtr = []
              | Inr (Some r) \<Rightarrow> Log Severe All_retries_failed \<notin> set rtr \<and> gets w1 < gets w2
                                 \<and> http env (gets w2 - 1) = Responds r"
    by blast
  have step': "sync_step env v w =
     (case (res, w2) of
           (Inl e, w2) \<Rightarrow> (Raise e, w2)
         | (Inr None, w2) \<Rightarrow> (Break (v\<lparr>params_v := ps\<rparr>), emit (Log Warning No_response) w2)
         | (Inr (Some results), w2) \<Rightarrow>
             (let v1 = v\<lparr>params_v := ps, data_v := Some results\<rparr> in
              if results = [] then (Break v1, emit (Log Info No_more_results) w2)
              else
                (case process_food_enforcement_records env results w2 of
                   (batch_processed, w3) \<Rightarrow>
                     (let v2 = v1\<lparr>total_v := total_v v1 + batch_processed\<rparr>;
                          w4 = emit (Log Info (Processed_batch batch_processed (total_v v2))) w3
                      in if int (length results) < limit ps
                         then (Break v2, emit (Log Info Reached_end) w4)
                         else
                           (let v3 = v2\<lparr>skip_v := skip_v v2 + limit ps\<rparr> in
                            case get_latest_report_date env results w4 of
                              (Inl e, w5) \<Rightarrow> (Raise e, w5)
                            | (Inr latest_report_date, w5) \<Rightarrow>
                                (let new_state =
                                       \<lparr>last_sync_date = Some latest_report_date,
                                        total_processed = total_v v3,
                                        last_cursor = Some (skip_v v3)\<rparr>;
                                     w6 = emit (Checkpoint new_state) w5;
                                     w7 = emit (Sleep (1 / 4)) w6
                                 in (Continue v3, w7)))))))"
    unfolding sync_step_def Let_def ps_def [symmetric] w1_def [symmetric] retry ..
  show thesis
  proof (cases res)
    case (Inl e)
    with res step step' rtr w1 show thesis
      by (intro exhausted [of rtr]) auto
  next
    case (Inr r)
    with res obtain results where r: "res = Inr (Some results)"
      and ok: "Log Severe All_retries_failed \<notin> set rtr" "gets w1 < gets w2"
        "http env (gets w2 - 1) = Responds results"
      by (cases r) auto
    show thesis
    proof (cases "results = []")
      case True
      with r step step' rtr w1 ok lim show thesis
        by (intro no_more [of "v\<lparr>params_v := ps, data_v := Some results\<rparr>" rtr])
           (auto simp: emit_simps)
    next
      case False
      obtain n w3 where proc: "process_food_enforcement_records env results w2 = (n, w3)"
        by (cases "process_food_enforcement_records env results w2")
      from process_summary [OF proc]
      obtain ptr where n: "n = int (length results)" and w3: "gets w3 = gets w2"
        "trace w3 = trace w2 @ ptr" "list_all process_event ptr"
        by blast
      define v2 where "v2 = v\<lparr>params_v := ps, data_v := Some results, total_v := total_v v + n\<rparr>"
      define w4 where "w4 = emit (Log Info (Processed_batch n (total_v v2))) w3"
      have w4: "trace w4 = trace w @ Log Info (Fetching_batch (skip_v v) (limit (params_v v))) # rtr @ ptr
                  @ [Log Info (Processed_batch (int (length results)) (total_v v2))]"
        "gets w4 = gets w2"
        by (simp_all add: w4_def emit_simps w3 rtr w1 n)
      show thesis
      proof (cases "int (length results) < limit ps")
        case True
        with False r step step' proc have "st = Break v2" "w' = emit (Log Info Reached_end) w4"
          by (simp_all add: Let_def v2_def w4_def)
        with True False w4 ok w1 w3 lim n rtr show thesis
          by (intro short [of v2 results rtr ptr]) (auto simp: emit_simps v2_def)
      next
        case full_page: False
        define v3 where "v3 = v2\<lparr>skip_v := skip_v v2 + limit ps\<rparr>"
        obtain cur w5 where glr: "get_latest_report_date env results w4 = (cur, w5)"
          by (cases "get_latest_report_date env results w4")
        from get_latest_report_date_summary [OF glr]
        have w5: "trace w5 = trace w4" "gets w5 = gets w4"
          and cur: "case cur of
               Inl e \<Rightarrow> latest_loop env results None = Inl e
             | Inr d \<Rightarrow> latest_loop env results None = Inr (Some d)
                        \<or> (latest_loop env results None = Inr None \<and> d = now env (ticks w4))"
          by simp_all
        show thesis
        proof (cases cur)
          case (Inl e)
          with False full_page r step step' proc glr have "st = Raise e" "w' = w5"
            by (simp_all add: Let_def v2_def w4_def)
          with Inl cur False full_page w4 w5 ok w1 w3 lim n rtr show thesis
            by (intro bad_date [of e results rtr ptr]) (auto simp: v2_def)
        next
          case (Inr d)
          with False full_page r step step' proc glr
          have "st = Continue v3"
            "w' = emit (Sleep (1 / 4)) (emit (Checkpoint \<lparr>last_sync_date = Some d,
                 total_processed = total_v v3, last_cursor = Some (skip_v v3)\<rparr>) w5)"
            by (simp_all add: Let_def v2_def w4_def v3_def)
          with Inr cur False full_page w4 w5 ok w1 w3 lim n rtr show thesis
            by (intro full [of v3 results rtr ptr d]) (auto simp: emit_simps v2_def v3_def)
        qed
      qed
    qed
  qed
qed

text \<open>Induction over the passes of a run of the loop.\<close>

lemma sync_loop_run_induct [consumes 1, case_names finished raise break continue]:
  assumes "sync_loop env m v w = (res, w')"
    and "\<And>v w. \<not> total_v v < m \<Longrightarrow> P v w (Inr v) w"
    and "\<And>v w e w'. total_v v < m \<Longrightarrow> sync_step env v w = (Raise e, w') \<Longrightarrow> P v w (Inl e) w'"
    and "\<And>v w v' w'. total_v v < m \<Longrightarrow> sync_step env v w = (Break v', w') \<Longrightarrow> P v w (Inr v') w'"
    and "\<And>v w v1 w1 res w'. total_v v < m \<Longrightarrow> sync_step env v w = (Continue v1, w1)
        \<Longrightarrow> sync_loop env m v1 w1 = (res, w') \<Longrightarrow> P v1 w1 res w' \<Longrightarrow> P v w res w'"
  shows "P v w res w'"
  using assms
proof (induction env m v w arbitrary: res w' rule: sync_loop.induct)
  case (1 env m v w)
  note run = "1.prems"(1) [unfolded sync_loop.simps [of env m v w]]
  show ?case
  proof (cases "total_v v < m")
    case False
    with run have "res = Inr v" "w' = w"
      by simp_all
    with False "1.prems"(2) show ?thesis
      by simp
  next
    case True
    obtain st w1 where step: "sync_step env v w = (st, w1)"
      by (cases "sync_step env v w")
    show ?thesis
    proof (cases st)
      case (Raise e)
      with True step run "1.prems"(3) [of v w e w1] show ?thesis
        by simp
    next
      case (Break v1)
      with True step run "1.prems"(4) [of v w v1 w1] show ?thesis
        by simp
    next
      case (Continue v1)
      with True step run have rec: "sync_loop env m v1 w1 = (res, w')"
        by simp
      have "P v1 w1 res w'"
        using "1.IH" [OF True step [symmetric] Continue rec] "1.prems"(2-5)
        by blast
      with True step Continue rec "1.prems"(5) [of v w v1 w1 res w'] show ?thesis
        by simp
    qed
  qed
qed

lemma checkpoints_of_append: "checkpoints_of (a @ b) = checkpoints_of a @ checkpoints_of b"
  by (induction a rule: checkpoints_of.induct) simp_all

lemma logs_of_append: "logs_of (a @ b) = logs_of a @ logs_of b"
  by (induction a rule: logs_of.induct) simp_all

lemma gets_of_append: "gets_of (a @ b) = gets_of a @ gets_of b"
  by (induction a rule: gets_of.induct) simp_all

lemma sleeps_of_append: "sleeps_of (a @ b) = sleeps_of a @ sleeps_of b"
  by (induction a rule: sleeps_of.induct) simp_all

lemma retry_event_cases:
  assumes "retry_event e"
  obtains url ps where "e = Get url ps"
  | d where "e = Sleep d"
  | a m err where "e = Log Warning (Request_failed a m err)"
  | n where "e = Log Info (Retrying_in n)"
  | "e = Log Severe All_retries_failed"
  using assms by (rule retry_event.elims) auto

lemma process_event_cases:
  assumes "process_event e"
  obtains t r where "e = Upsert t r"
  | n where "e = Log Info (Upserted n)"
  using assms by (rule process_event.elims) auto

lemma retry_events_checkpoints: "list_all retry_event tr \<Longrightarrow> checkpoints_of tr = []"
  by (induction tr) (auto elim!: retry_event_cases)

lemma retry_events_logs:
  assumes "list_all retry_event tr" and "m \<in> set (logs_of tr)"
  shows "(\<exists>a b e. m = Request_failed a b e) \<or> (\<exists>n. m = Retrying_in n) \<or> m = All_retries_failed"
  using assms by (induction tr) (auto elim!: retry_event_cases)

lemma retry_events_failed:
  "list_all retry_event tr \<Longrightarrow> All_retries_failed \<in> set (logs_of tr) \<longleftrightarrow> Log Severe All_retries_failed \<in> set tr"
  by (induction tr) (auto elim!: retry_event_cases)

lemma process_events_checkpoints: "list_all process_event tr \<Longrightarrow> checkpoints_of tr = []"
  by (induction tr) (auto elim!: process_event_cases)

lemma process_events_gets: "list_all process_event tr \<Longrightarrow> gets_of tr = []"
  by (induction tr) (auto elim!: process_event_cases)

lemma process_events_logs:
  assumes "list_all process_event tr" and "m \<in> set (logs_of tr)"
  shows "\<exists>n. m = Upserted n"
  using assms by (induction tr) (auto elim!: process_event_cases)

lemma final_cursor_summary:
  assumes "final_cursor env v w = (cur, w')"
  shows "trace w' = trace w \<and> gets w' = gets w
         \<and> (case cur of
               Inl e \<Rightarrow> (\<exists>results. data_v v = Some results \<and> results \<noteq> []
                              \<and> latest_loop env results None = Inl e)
             | Inr d \<Rightarrow> (\<exists>results. data_v v = Some results \<and> results \<noteq> []
                              \<and> (latest_loop env results None = Inr (Some d)
                                  \<or> latest_loop env results None = Inr None \<and> d = now env (ticks w)))
                        \<or> (data_v v = None \<or> data_v v = Some []) \<and> d = now env (ticks w))"
proof (cases "data_v v")
  case None
  with assms show ?thesis
    by (auto simp: final_cursor_def read_clock_def)
next
  case (Some results)
  show ?thesis
  proof (cases "results = []")
    case True
    with Some assms show ?thesis
      by (auto simp: final_cursor_def read_clock_def)
  next
    case False
    with Some assms have "get_latest_report_date env results w = (cur, w')"
      by (simp add: final_cursor_def)
    from get_latest_report_date_summary [OF this] Some False show ?thesis
      by (auto split: sum.splits)
  qed
qed

lemma announce_simps:
  "trace (announce cfg state w) =
     trace w @ [Log Info (if incremental cfg state
                          then Incremental_since (the (last_sync_date (initial_state state)))
                          else Full_sync)]"
  "gets (announce cfg state w) = gets w"
  "ticks (announce cfg state w) = ticks w"
  by (simp_all add: announce_def emit_simps)

lemma update_cases [consumes 1, case_names invalid failed_loop failed_final completed]:
  assumes "update env cfg state w = (res, w')"
  obtains
    (invalid) e where
      "validate_configuration cfg = Inl e" "res = Inl e" "w' = emit (Log Info Starting_sync) w"
  | (failed_loop) e w3 where
      "sync_loop env (max_records_setting cfg) (initial_locals cfg state)
         (announce cfg state (emit (Log Info Starting_sync) w)) = (Inl e, w3)"
      "res = Inl (RuntimeError e)" "w' = emit (Log Severe (Failed_to_sync e)) w3"
  | (failed_final) v w3 e w4 where
      "sync_loop env (max_records_setting cfg) (initial_locals cfg state)
         (announce cfg state (emit (Log Info Starting_sync) w)) = (Inr v, w3)"
      "final_cursor env v w3 = (Inl e, w4)"
      "res = Inl (RuntimeError e)" "w' = emit (Log Severe (Failed_to_sync e)) w4"
  | (completed) v w3 d w4 where
      "sync_loop env (max_records_setting cfg) (initial_locals cfg state)
         (announce cfg state (emit (Log Info Starting_sync) w)) = (Inr v, w3)"
      "final_cursor env v w3 = (Inr d, w4)"
      "res = Inr ()"
      "w' = emit (Log Info (Sync_completed (total_v v)))
              (emit (Checkpoint \<lparr>last_sync_date = Some d, total_processed = total_v v,
                                 last_cursor = Some (skip_v v)\<rparr>) w4)"
proof (cases "validate_configuration cfg")
  case (Inl e)
  with assms show thesis
    by (intro invalid [of e]) (simp_all add: update_def Let_def)
next
  case (Inr u)
  obtain r w3 where loop: "sync_loop env (max_records_setting cfg) (initial_locals cfg state)
         (announce cfg state (emit (Log Info Starting_sync) w)) = (r, w3)"
    by (cases "sync_loop env (max_records_setting cfg) (initial_locals cfg state)
         (announce cfg state (emit (Log Info Starting_sync) w))")
  show thesis
  proof (cases r)
    case (Inl e)
    with Inr loop assms show thesis
      by (intro failed_loop [of e w3]) (simp_all add: update_def Let_def fail_sync_def)
  next
    case v: (Inr v)
    obtain cur w4 where fin: "final_cursor env v w3 = (cur, w4)"
      by (cases "final_cursor env v w3")
    show thesis
    proof (cases cur)
      case (Inl e)
      with Inr loop v fin assms show thesis
        by (intro failed_final [of v w3 e w4]) (simp_all add: update_def Let_def fail_sync_def)
    next
      case d: (Inr d)
      with Inr loop v fin assms show thesis
        by (intro completed [of v w3 d w4]) (simp_all add: update_def Let_def)
    qed
  qed
qed

lemma run_trace_eq:
  assumes "update env cfg state w = (res, w')" and "trace w' = trace w @ tr"
  shows "run_trace env cfg state w = tr"
  using assms by (simp add: run_trace_def)

lemma sync_loop_no_response:
  assumes "sync_loop env m v w = (res, w')"
  shows "\<exists>tr. trace w' = trace w @ tr \<and> No_response \<notin> set (logs_of tr)"
  using assms
proof (induction v w res w' rule: sync_loop_run_induct)
  case (finished v w)
  then show ?case by simp
next
  case (raise v w e w')
  from raise(2) show ?case
    by (cases rule: sync_step_cases)
       (auto simp: logs_of_append dest: retry_events_logs process_events_logs)
next
  case (break v w v' w')
  from break(2) show ?case
    by (cases rule: sync_step_cases)
       (auto simp: logs_of_append dest: retry_events_logs process_events_logs)
next
  case (continue v w v1 w1 res w')
  from continue(4) obtain tr2 where tr2: "trace w' = trace w1 @ tr2" "No_response \<notin> set (logs_of tr2)"
    by blast
  from continue(2) obtain tr1 where "trace w1 = trace w @ tr1" "No_response \<notin> set (logs_of tr1)"
    by (cases rule: sync_step_cases)
       (auto simp: logs_of_append dest: retry_events_logs process_events_logs)
  with tr2 show ?case
    by (intro exI [where x = "tr1 @ tr2"]) (simp add: logs_of_append)
qed

lemma latest_loop_error: "latest_loop env records acc = Inl e \<Longrightarrow> e = TypeError"
proof (induction env records acc rule: latest_loop.induct)
  case (1 env latest_date)
  then show ?case by simp
next
  case (2 env r records latest_date)
  have len: "py_len v = Inl e' \<Longrightarrow> e' = TypeError" for v e'
    by (cases v) auto
  have iso: "iso_of env v = Inl e' \<Longrightarrow> e' = TypeError" for v e'
    by (cases v) auto
  from 2 show ?case
    by (auto split: option.splits sum.splits if_splits dest: len iso)
qed

lemma retry_events_not_failed:
  assumes "list_all retry_event tr" and "Log Severe All_retries_failed \<notin> set tr"
  shows "All_retries_failed \<notin> set (logs_of tr)"
  using assms by (simp add: retry_events_failed)

lemma process_events_not_failed:
  assumes "list_all process_event tr"
  shows "All_retries_failed \<notin> set (logs_of tr)"
  using process_events_logs [OF assms] by blast

lemma last_logs_of: "tr \<noteq> [] \<Longrightarrow> last tr = Log l m \<Longrightarrow> m \<in> set (logs_of tr)"
  by (induction tr rule: logs_of.induct) (auto split: if_splits)

lemma sync_loop_exhausted:
  assumes "sync_loop env m v w = (res, w')"
  shows "\<exists>tr. trace w' = trace w @ tr
            \<and> (if All_retries_failed \<in> set (logs_of tr)
                then res = Inl RequestException \<and> tr \<noteq> []
                     \<and> last tr = Log Severe All_retries_failed
                else res \<noteq> Inl RequestException)"
  using assms
proof (induction v w res w' rule: sync_loop_run_induct)
  case (finished v w)
  then show ?case by simp
next
  case (raise v w e w')
  from raise(2) show ?case
  proof (cases rule: sync_step_cases)
    case (exhausted rtr)
    then show ?thesis
      using last_logs_of [of rtr Severe All_retries_failed]
      by (intro exI [where x = "Log Info (Fetching_batch (skip_v v) (limit (params_v v))) # rtr"])
         auto
  next
    case (bad_date rtr ptr results e')
    then show ?thesis
      using latest_loop_error [of env results None e']
      by (auto simp: logs_of_append dest: retry_events_not_failed process_events_not_failed)
  qed simp_all
next
  case (break v w v' w')
  from break(2) show ?case
    by (cases rule: sync_step_cases)
       (auto simp: logs_of_append dest: retry_events_not_failed process_events_not_failed)
next
  case (continue v w v1 w1 res w')
  from continue(4) obtain tr2 where tr2: "trace w' = trace w1 @ tr2"
    "if All_retries_failed \<in> set (logs_of tr2)
     then res = Inl RequestException \<and> tr2 \<noteq> [] \<and> last tr2 = Log Severe All_retries_failed
     else res \<noteq> Inl RequestException"
    by blast
  from continue(2) obtain tr1 where tr1: "trace w1 = trace w @ tr1"
    "All_retries_failed \<notin> set (logs_of tr1)"
    by (cases rule: sync_step_cases)
       (auto simp: logs_of_append dest: retry_events_not_failed process_events_not_failed)
  show ?case
  proof (cases "All_retries_failed \<in> set (logs_of tr2)")
    case True
    with tr1 tr2 show ?thesis
      by (intro exI [where x = "tr1 @ tr2"]) (simp add: logs_of_append)
  next
    case False
    with tr1 tr2 show ?thesis
      by (intro exI [where x = "tr1 @ tr2"]) (simp add: logs_of_append)
  qed
qed

lemma sync_loop_totals:
  assumes "sync_loop env m v w = (res, w')"
  shows "\<exists>tr. trace w' = trace w @ tr
            \<and> sorted (map total_processed (checkpoints_of tr))
            \<and> list_all (\<lambda>c. total_v v \<le> total_processed c) (checkpoints_of tr)
            \<and> (case res of Inl e \<Rightarrow> True
                | Inr v' \<Rightarrow> total_v v \<le> total_v v'
                    \<and> list_all (\<lambda>c. total_processed c \<le> total_v v') (checkpoints_of tr))"
  using assms
proof (induction v w res w' rule: sync_loop_run_induct)
  case (finished v w)
  then show ?case by simp
next
  case (raise v w e w')
  from raise(2) show ?case
    by (cases rule: sync_step_cases)
       (auto simp: checkpoints_of_append retry_events_checkpoints process_events_checkpoints)
next
  case (break v w v' w')
  from break(2) show ?case
    by (cases rule: sync_step_cases)
       (auto simp: checkpoints_of_append retry_events_checkpoints process_events_checkpoints)
next
  case (continue v w v1 w1 res w')
  from continue(4) obtain tr2 where tr2: "trace w' = trace w1 @ tr2"
    "sorted (map total_processed (checkpoints_of tr2))"
    "list_all (\<lambda>c. total_v v1 \<le> total_processed c) (checkpoints_of tr2)"
    "case res of Inl e \<Rightarrow> True
     | Inr v' \<Rightarrow> total_v v1 \<le> total_v v'
         \<and> list_all (\<lambda>c. total_processed c \<le> total_v v') (checkpoints_of tr2)"
    by blast
  from continue(2) obtain tr1 c where tr1: "trace w1 = trace w @ tr1"
    "checkpoints_of tr1 = [c]" "total_processed c = total_v v1" "total_v v \<le> total_v v1"
    by (cases rule: sync_step_cases)
       (auto simp: checkpoints_of_append retry_events_checkpoints process_events_checkpoints)
  show ?case
    using tr1 tr2
    by (intro exI [where x = "tr1 @ tr2"])
       (auto simp: checkpoints_of_append list_all_iff split: sum.splits)
qed

lemma filter_processed_retry: "list_all retry_event tr \<Longrightarrow> filter is_processed (logs_of tr) = []"
  by (induction tr) (auto elim!: retry_event_cases)

lemma filter_processed_process: "list_all process_event tr \<Longrightarrow> filter is_processed (logs_of tr) = []"
  by (induction tr) (auto elim!: process_event_cases)

lemma count_end_retry: "list_all retry_event tr \<Longrightarrow> count_list (logs_of tr) Reached_end = 0"
  by (induction tr) (auto elim!: retry_event_cases)

lemma count_end_process: "list_all process_event tr \<Longrightarrow> count_list (logs_of tr) Reached_end = 0"
  by (induction tr) (auto elim!: process_event_cases)

lemma count_list_append': "count_list (a @ b) x = count_list a x + count_list b x"
  by (induction a) auto

lemmas count_simps = pages_processed_def short_pages_def logs_of_append checkpoints_of_append
  count_list_append' filter_processed_retry filter_processed_process count_end_retry count_end_process
  retry_events_checkpoints process_events_checkpoints

lemma sync_loop_counts:
  assumes "sync_loop env m v w = (res, w')"
  shows "\<exists>tr. trace w' = trace w @ tr
            \<and> (case res of Inl e \<Rightarrow> True
                | Inr v' \<Rightarrow> length (checkpoints_of tr) + short_pages tr = pages_processed tr
                           \<and> short_pages tr \<le> 1)"
  using assms
proof (induction v w res w' rule: sync_loop_run_induct)
  case (finished v w)
  then show ?case by (simp add: count_simps)
next
  case (raise v w e w')
  from raise(2) show ?case
    by (cases rule: sync_step_cases) auto
next
  case (break v w v' w')
  from break(2) show ?case
    by (cases rule: sync_step_cases) (auto simp: count_simps)
next
  case (continue v w v1 w1 res w')
  from continue(4) obtain tr2 where tr2: "trace w' = trace w1 @ tr2"
    "case res of Inl e \<Rightarrow> True
     | Inr v' \<Rightarrow> length (checkpoints_of tr2) + short_pages tr2 = pages_processed tr2
                \<and> short_pages tr2 \<le> 1"
    by blast
  from continue(2) obtain tr1 where tr1: "trace w1 = trace w @ tr1"
    "length (checkpoints_of tr1) = 1" "short_pages tr1 = 0" "pages_processed tr1 = 1"
    by (cases rule: sync_step_cases) (auto simp: count_simps)
  show ?case
    using tr1 tr2
    by (intro exI [where x = "tr1 @ tr2"])
       (auto simp: pages_processed_def short_pages_def logs_of_append checkpoints_of_append
                   count_list_append' split: sum.splits)
qed

lemma attempts_from_all_fail:
  assumes "a < m" and "\<forall>k < nat (m - a). http env (gets w + k) = Fails"
  shows "fst (attempts_from env url ps m a w) = Inl RequestException"
  using assms
proof (induction env url ps m a w rule: attempts_from.induct)
  case (1 env url ps m a w)
  from "1.prems" have first: "http env (gets w) = Fails"
    by (auto dest: spec [where x = 0])
  have hg: "(Fails, snd (http_get env url ps w)) = http_get env url ps w"
    using first by (simp add: http_get_def)
  show ?case
  proof (cases "a < m - 1")
    case False
    with "1.prems" first show ?thesis
      by (simp add: attempts_from.simps [of env url ps m a w] http_get_def Let_def)
  next
    case True
    define w4 where "w4 = emit (Sleep (of_int (2 ^ nat a))) (emit (Log Info (Retrying_in (2 ^ nat a)))
            (emit (Log Warning (Request_failed (a + 1) m RequestException)) (snd (http_get env url ps w))))"
    have g4: "gets w4 = gets w + 1"
      by (simp add: w4_def emit_simps http_get_def)
    have rest: "\<forall>k < nat (m - (a + 1)). http env (gets w4 + k) = Fails"
    proof (intro allI impI)
      fix k assume "k < nat (m - (a + 1))"
      with True have "Suc k < nat (m - a)" by linarith
      with "1.prems"(2) have "http env (gets w + Suc k) = Fails" by blast
      then show "http env (gets w4 + k) = Fails" by (simp add: g4)
    qed
    have "fst (attempts_from env url ps m (a + 1) w4) = Inl RequestException"
      unfolding w4_def
      using True rest [unfolded w4_def]
      by (intro "1.IH" [OF "1.prems"(1) hg refl refl True refl refl refl]) simp_all
    with True "1.prems"(1) first show ?thesis
      by (simp add: attempts_from.simps [of env url ps m a w] http_get_def Let_def w4_def)
  qed
qed

lemma update_trace:
  "trace (snd (update env cfg state w)) = trace w @ run_trace env cfg state w"
proof -
  obtain res w' where u: "update env cfg state w = (res, w')"
    by (cases "update env cfg state w")
  have "\<exists>tr. trace w' = trace w @ tr"
    using u
  proof (cases rule: update_cases)
    case (invalid e)
    then show ?thesis by (simp add: emit_simps)
  next
    case (failed_loop e w3)
    from sync_loop_no_response [OF failed_loop(1)] failed_loop(3) show ?thesis
      by (auto simp: emit_simps announce_simps)
  next
    case (failed_final v w3 e w4)
    from sync_loop_no_response [OF failed_final(1)] final_cursor_summary [OF failed_final(2)]
      failed_final(4) show ?thesis
      by (auto simp: emit_simps announce_simps)
  next
    case (completed v w3 d w4)
    from sync_loop_no_response [OF completed(1)] final_cursor_summary [OF completed(2)]
      completed(4) show ?thesis
      by (auto simp: emit_simps announce_simps)
  qed
  with u show ?thesis
    by (auto simp: run_trace_def)
qed

text \<open>A run against the server that answers once and then fails.\<close>

lemma failing_run:
  "run_trace failing_env one_per_page None start_world =
     [Log Info Starting_sync, Log Info Full_sync, Log Info (Fetching_batch 0 1),
      Get base_url \<lparr>api_key = ''key'', limit = 1, search = None, skip = None\<rparr>,
      Upsert ''food_enforcement_records''
        [(''recall_number'', JStr ''F-0001-2024''), (''report_date'', JStr ''20240101''),
         (''_fivetran_synced'', JStr ''2026-11-04T12:00:00+00:00''),
         (''_fivetran_deleted'', JBool False)],
      Log Info (Upserted 1), Log Info (Processed_batch 1 1),
      Checkpoint \<lparr>last_sync_date = Some ''2024-01-01T00:00:00Z'', total_processed = 1,
                  last_cursor = Some 1\<rparr>,
      Sleep (1 / 4), Log Info (Fetching_batch 1 1),
      Get base_url \<lparr>api_key = ''key'', limit = 1, search = None, skip = Some 1\<rparr>,
      Log Warning (Request_failed 1 3 RequestException), Log Info (Retrying_in 1), Sleep 1,
      Get base_url \<lparr>api_key = ''key'', limit = 1, search = None, skip = Some 1\<rparr>,
      Log Warning (Request_failed 2 3 RequestException), Log Info (Retrying_in 2), Sleep 2,
      Get base_url \<lparr>api_key = ''key'', limit = 1, search = None, skip = Some 1\<rparr>,
      Log Warning (Request_failed 3 3 RequestException),
      Log Severe All_retries_failed, Log Severe (Failed_to_sync RequestException)]"
  by code_simp

text \<open>Runs against the concrete servers, evaluated.\<close>

lemma short_run:
  "update steady_env two_per_page None start_world =
     (Inr (),
      \<lparr>trace =
         [Log Info Starting_sync, Log Info Full_sync, Log Info (Fetching_batch 0 2),
          Get base_url \<lparr>api_key = ''key'', limit = 2, search = None, skip = None\<rparr>,
          Upsert ''food_enforcement_records''
            [(''recall_number'', JStr ''F-0001-2024''), (''report_date'', JStr ''20240101''),
             (''_fivetran_synced'', JStr ''2026-11-04T12:00:00+00:00''),
             (''_fivetran_deleted'', JBool False)],
          Log Info (Upserted 1), Log Info (Processed_batch 1 1), Log Info Reached_end,
          Checkpoint \<lparr>last_sync_date = Some ''2024-01-01T00:00:00Z'', total_processed = 1,
                      last_cursor = Some 0\<rparr>,
          Log Info (Sync_completed 1)],
       gets = 1, ticks = 1\<rparr>)"
  by code_simp

lemma regressing_run:
  "update regressing_env one_per_page None start_world =
     (Inr (),
      \<lparr>trace =
         [Log Info Starting_sync, Log Info Full_sync, Log Info (Fetching_batch 0 1),
          Get base_url \<lparr>api_key = ''key'', limit = 1, search = None, skip = None\<rparr>,
          Upsert ''food_enforcement_records''
            [(''recall_number'', JStr ''F-0001-2024''), (''report_date'', JStr ''20240315''),
             (''_fivetran_synced'', JStr ''2026-11-04T12:00:00+00:00''),
             (''_fivetran_deleted'', JBool False)],
          Log Info (Upserted 1), Log Info (Processed_batch 1 1),
          Checkpoint \<lparr>last_sync_date = Some ''2024-03-15T00:00:00Z'', total_processed = 1,
                      last_cursor = Some 1\<rparr>,
          Sleep (1 / 4), Log Info (Fetching_batch 1 1),
          Get base_url \<lparr>api_key = ''key'', limit = 1, search = None, skip = Some 1\<rparr>,
          Upsert ''food_enforcement_records''
            [(''recall_number'', JStr ''F-0001-2024''), (''report_date'', JStr ''20240101''),
             (''_fivetran_synced'', JStr ''2026-11-04T12:00:00+00:00''),
             (''_fivetran_deleted'', JBool False)],
          Log Info (Upserted 1), Log Info (Processed_batch 1 2),
          Checkpoint \<lparr>last_sync_date = Some ''2024-01-01T00:00:00Z'', total_processed = 2,
                      last_cursor = Some 2\<rparr>,
          Sleep (1 / 4), Log Info (Fetching_batch 2 1),
          Get base_url \<lparr>api_key = ''key'', limit = 1, search = None, skip = Some 2\<rparr>,
          Log Info No_more_results,
          Checkpoint \<lparr>last_sync_date = Some ''2026-11-04T12:00:00+00:00'', total_processed = 2,
                      last_cursor = Some 2\<rparr>,
          Log Info (Sync_completed 2)],
       gets = 3, ticks = 3\<rparr>)"
  by code_simp

lemma run_trace_start: "run_trace env cfg state start_world = trace (snd (update env cfg state start_world))"
  by (simp add: run_trace_def start_world_def)

lemma capped_run:
  "validate_configuration one_per_page = Inr ()"
  "max_records_setting one_per_page = 10000"
  "initial_state (Some capped_state) = capped_state"
  "total_processed capped_state = 10000"
  "last_sync_date capped_state = Some ''2024-01-01T00:00:00Z''"
  "now steady_env k = ''2026-11-04T12:00:00+00:00''"
  by (simp_all add: validate_configuration_def one_per_page_def max_records_setting_def
        initial_state_def capped_state_def steady_env_def)

lemma from_page_mono:
  "from_page env lo hi c \<Longrightarrow> lo' \<le> lo \<Longrightarrow> hi \<le> hi' \<Longrightarrow> from_page env lo' hi' c"
  unfolding from_page_def by (meson le_trans less_le_trans)

lemma sync_loop_cursors:
  assumes dated: "\<forall>k r. http env k = Responds r \<longrightarrow> r \<noteq> []
                    \<longrightarrow> (\<exists>d. latest_loop env r None = Inr (Some d))"
    and ordered: "\<forall>i j ri rj di dj. i \<le> j \<longrightarrow> http env i = Responds ri \<longrightarrow> http env j = Responds rj
                    \<longrightarrow> latest_loop env ri None = Inr (Some di)
                    \<longrightarrow> latest_loop env rj None = Inr (Some dj) \<longrightarrow> di \<le> dj"
    and run: "sync_loop env m v w = (res, w')"
  shows "\<exists>tr. trace w' = trace w @ tr \<and> gets w \<le> gets w'
            \<and> sorted (map last_sync_date (checkpoints_of tr))
            \<and> list_all (from_page env (gets w) (gets w')) (checkpoints_of tr)
            \<and> (case res of Inl e \<Rightarrow> True
                | Inr v' \<Rightarrow> data_v v' = data_v v \<and> checkpoints_of tr = [] \<and> gets w' = gets w
                           \<or> (\<exists>r. data_v v' = Some r \<and> gets w < gets w'
                                   \<and> http env (gets w' - 1) = Responds r))"
  using run
proof (induction v w res w' rule: sync_loop_run_induct)
  case (finished v w)
  then show ?case by simp
next
  case (raise v w e w')
  from raise(2) show ?case
    by (cases rule: sync_step_cases)
       (auto simp: checkpoints_of_append retry_events_checkpoints process_events_checkpoints)
next
  case (break v w v' w')
  from break(2) show ?case
    by (cases rule: sync_step_cases)
       (auto simp: checkpoints_of_append retry_events_checkpoints process_events_checkpoints)
next
  case (continue v w v1 w1 res w')
  from continue(4) obtain tr2 where tr2: "trace w' = trace w1 @ tr2" "gets w1 \<le> gets w'"
    "sorted (map last_sync_date (checkpoints_of tr2))"
    "list_all (from_page env (gets w1) (gets w')) (checkpoints_of tr2)"
    "case res of Inl e \<Rightarrow> True
     | Inr v' \<Rightarrow> data_v v' = data_v v1 \<and> checkpoints_of tr2 = [] \<and> gets w' = gets w1
                \<or> (\<exists>r. data_v v' = Some r \<and> gets w1 < gets w'
                        \<and> http env (gets w' - 1) = Responds r)"
    by blast
  from continue(2) obtain tr1 results d c where step:
    "trace w1 = trace w @ tr1" "checkpoints_of tr1 = [c]" "last_sync_date c = Some d"
    "data_v v1 = Some results" "results \<noteq> []" "gets w < gets w1"
    "http env (gets w1 - 1) = Responds results"
    "latest_loop env results None = Inr (Some d)
       \<or> latest_loop env results None = Inr None \<and> (\<exists>t. d = now env t)"
    by (cases rule: sync_step_cases)
       (auto simp: checkpoints_of_append retry_events_checkpoints process_events_checkpoints)
  from dated step(5,7) obtain d' where "latest_loop env results None = Inr (Some d')"
    by blast
  with step(8) have d: "latest_loop env results None = Inr (Some d)"
    by auto
  have c: "from_page env (gets w) (gets w1) c"
    unfolding from_page_def
    using step(3,6,7) d
    by (intro exI [where x = "gets w1 - 1"] exI [where x = results] exI [where x = d]) auto
  have le: "last_sync_date c \<le> last_sync_date c2" if "c2 \<in> set (checkpoints_of tr2)" for c2
  proof -
    from that tr2(4) have "from_page env (gets w1) (gets w') c2"
      by (simp add: list_all_iff)
    then obtain k2 r2 d2 where k2: "gets w1 \<le> k2" "http env k2 = Responds r2"
      "latest_loop env r2 None = Inr (Some d2)" "last_sync_date c2 = Some d2"
      unfolding from_page_def by blast
    from step(6) k2(1) have "gets w1 - 1 \<le> k2"
      by simp
    with ordered step(7) k2(2,3) d have "d \<le> d2"
      by blast
    with step(3) k2(4) show ?thesis
      by simp
  qed
  have all: "list_all (from_page env (gets w) (gets w')) (checkpoints_of (tr1 @ tr2))"
    using c tr2(2,4) step(2,6)
    by (auto simp: checkpoints_of_append list_all_iff intro: from_page_mono)
  have fin: "case res of Inl e \<Rightarrow> True
     | Inr v' \<Rightarrow> data_v v' = data_v v \<and> checkpoints_of (tr1 @ tr2) = [] \<and> gets w' = gets w
                \<or> (\<exists>r. data_v v' = Some r \<and> gets w < gets w'
                        \<and> http env (gets w' - 1) = Responds r)"
  proof (cases res)
    case (Inl e)
    then show ?thesis by simp
  next
    case (Inr v')
    with tr2(5) have "data_v v' = data_v v1 \<and> checkpoints_of tr2 = [] \<and> gets w' = gets w1
                \<or> (\<exists>r. data_v v' = Some r \<and> gets w1 < gets w'
                        \<and> http env (gets w' - 1) = Responds r)"
      by simp
    with step(4,6,7) tr2(2)
    have "\<exists>r. data_v v' = Some r \<and> gets w < gets w' \<and> http env (gets w' - 1) = Responds r"
      by auto
    with Inr show ?thesis
      by simp
  qed
  show ?case
    using step(1,2,6) tr2(1,2,3) le all fin
    by (intro exI [where x = "tr1 @ tr2"]) (auto simp: checkpoints_of_append)
qed

lemma latest_of_dated_record:
  "latest_loop env [dated_record ''20240101''] None = Inr (Some ''2024-01-01T00:00:00Z'')"
  "latest_loop env [dated_record ''20240315''] None = Inr (Some ''2024-03-15T00:00:00Z'')"
  by (simp_all add: dated_record_def py_get_def)

lemma ordered_env_pages:
  assumes "http ordered_env k = Responds r" and "r \<noteq> []"
  shows "k = 0 \<and> r = [dated_record ''20240101''] \<or> k = 1 \<and> r = [dated_record ''20240315'']"
  using assms by (auto simp: ordered_env_def split: if_splits)

lemma ordered_env_cursor:
  assumes "http ordered_env k = Responds r" and "latest_loop ordered_env r None = Inr (Some d)"
  shows "k = 0 \<and> d = ''2024-01-01T00:00:00Z'' \<or> k = 1 \<and> d = ''2024-03-15T00:00:00Z''"
proof -
  from assms(2) have "r \<noteq> []"
    by auto
  from ordered_env_pages [OF assms(1) this]
  consider "k = 0" "r = [dated_record ''20240101'']" | "k = 1" "r = [dated_record ''20240315'']"
    by blast
  then show ?thesis
  proof cases
    case 1
    from assms(2) have "d = ''2024-01-01T00:00:00Z''"
      unfolding 1(2) latest_of_dated_record by simp
    with 1 show ?thesis by simp
  next
    case 2
    from assms(2) have "d = ''2024-03-15T00:00:00Z''"
      unfolding 2(2) latest_of_dated_record by simp
    with 2 show ?thesis by simp
  qed
qed

lemma ordered_run:
  "run_trace ordered_env one_per_page None start_world =
         [Log Info Starting_sync, Log Info Full_sync, Log Info (Fetching_batch 0 1),
          Get base_url \<lparr>api_key = ''key'', limit = 1, search = None, skip = None\<rparr>,
          Upsert ''food_enforcement_records''
            [(''recall_number'', JStr ''F-0001-2024''), (''report_date'', JStr ''20240101''),
             (''_fivetran_synced'', JStr ''2026-11-04T12:00:00+00:00''),
             (''_fivetran_deleted'', JBool False)],
          Log Info (Upserted 1), Log Info (Processed_batch 1 1),
          Checkpoint \<lparr>last_sync_date = Some ''2024-01-01T00:00:00Z'', total_processed = 1,
                      last_cursor = Some 1\<rparr>,
          Sleep (1 / 4), Log Info (Fetching_batch 1 1),
          Get base_url \<lparr>api_key = ''key'', limit = 1, search = None, skip = Some 1\<rparr>,
          Upsert ''food_enforcement_records''
            [(''recall_number'', JStr ''F-0001-2024''), (''report_date'', JStr ''20240315''),
             (''_fivetran_synced'', JStr ''2026-11-04T12:00:00+00:00''),
             (''_fivetran_deleted'', JBool False)],
          Log Info (Upserted 1), Log Info (Processed_batch 1 2),
          Checkpoint \<lparr>last_sync_date = Some ''2024-03-15T00:00:00Z'', total_processed = 2,
                      last_cursor = Some 2\<rparr>,
          Sleep (1 / 4), Log Info (Fetching_batch 2 1),
          Get base_url \<lparr>api_key = ''key'', limit = 1, search = None, skip = Some 2\<rparr>,
          Log Info No_more_results,
          Checkpoint \<lparr>last_sync_date = Some ''2026-11-04T12:00:00+00:00'', total_processed = 2,
                      last_cursor = Some 2\<rparr>,
          Log Info (Sync_completed 2)]"
  by code_simp

section \<open>The retry client\<close>

text \<open>
  C5. With the default of three attempts, a request whose first two attempts fail and
  whose third succeeds returns that response, once: three requests are sent, the client
  sleeps \<open>2 ^ 0 = 1\<close> second after the first failure and \<open>2 ^ 1 = 2\<close> seconds after
  the second, three seconds in all, and nothing else happens.
\<close>

theorem retry_third_attempt_succeeds:
  assumes "http env (gets w) = Fails"
    and "http env (gets w + 1) = Fails"
    and "http env (gets w + 2) = Responds response"
  shows "make_api_request_with_retry env url ps 3 w =
           (Inr (Some response),
            w\<lparr>trace := trace w @
                  [Get url ps, Log Warning (Request_failed 1 3 RequestException),
                   Log Info (Retrying_in 1), Sleep 1,
                   Get url ps, Log Warning (Request_failed 2 3 RequestException),
                   Log Info (Retrying_in 2), Sleep 2,
                   Get url ps],
               gets := gets w + 3\<rparr>)
         \<and> sleeps_of (drop (length (trace w))
               (trace (snd (make_api_request_with_retry env url ps 3 w)))) = [1, 2]
         \<and> sum_list (sleeps_of (drop (length (trace w))
               (trace (snd (make_api_request_with_retry env url ps 3 w))))) = 3"
proof -
  have run: "make_api_request_with_retry env url ps 3 w =
           (Inr (Some response),
            w\<lparr>trace := trace w @
                  [Get url ps, Log Warning (Request_failed 1 3 RequestException),
                   Log Info (Retrying_in 1), Sleep 1,
                   Get url ps, Log Warning (Request_failed 2 3 RequestException),
                   Log Info (Retrying_in 2), Sleep 2,
                   Get url ps],
               gets := gets w + 3\<rparr>)"
    using assms
    by (simp add: make_api_request_with_retry_def attempts_from.simps http_get_def emit_def Let_def)
  show ?thesis
    unfolding run by simp
qed

theorem retry_third_attempt_succeeds_witness:
  "http third_time_env (gets start_world) = Fails
   \<and> http third_time_env (gets start_world + 1) = Fails
   \<and> http third_time_env (gets start_world + 2) = Responds [[(''recall_number'', JStr ''F-1'')]]
   \<and> fst (make_api_request_with_retry third_time_env base_url example_ps 3 start_world)
       = Inr (Some [[(''recall_number'', JStr ''F-1'')]])
   \<and> sum_list (sleeps_of (trace (snd (make_api_request_with_retry third_time_env base_url example_ps 3 start_world)))) = 3"
proof -
  have h1: "http third_time_env (gets start_world) = Fails"
    and h2: "http third_time_env (gets start_world + 1) = Fails"
    and h3: "http third_time_env (gets start_world + 2) = Responds [[(''recall_number'', JStr ''F-1'')]]"
    by (simp_all add: third_time_env_def start_world_def)
  from retry_third_attempt_succeeds [OF h1 h2 h3, of base_url example_ps]
  show ?thesis
    using h1 h2 h3 by (simp add: start_world_def)
qed

text \<open>
  C10. Whenever at least one attempt is allowed, the retry client does not return
  \<^verbatim>\<open>None\<close>: it returns a response or raises. \<^verbatim>\<open>update\<close> allows three attempts, so its
  branch for a missing response is never taken: no run logs \<^verbatim>\<open>No response received from
  FDA API\<close>.
\<close>

theorem absent_response_unreachable:
  assumes "1 \<le> max_retries"
  shows "fst (make_api_request_with_retry env url ps max_retries w0) \<noteq> Inr None
         \<and> No_response \<notin> set (logs_of (run_trace env cfg state w))"
proof
  obtain res w1 where r: "attempts_from env url ps max_retries 0 w0 = (res, w1)"
    by (cases "attempts_from env url ps max_retries 0 w0")
  from attempts_from_summary [OF r] assms have "res \<noteq> Inr None"
    by (auto split: sum.splits option.splits)
  with r show "fst (make_api_request_with_retry env url ps max_retries w0) \<noteq> Inr None"
    by (simp add: make_api_request_with_retry_def)
next
  obtain res w' where u: "update env cfg state w = (res, w')"
    by (cases "update env cfg state w")
  have "\<exists>tr. trace w' = trace w @ tr \<and> No_response \<notin> set (logs_of tr)"
    using u
  proof (cases rule: update_cases)
    case (invalid e)
    then show ?thesis by (simp add: emit_simps)
  next
    case (failed_loop e w3)
    from sync_loop_no_response [OF failed_loop(1)] failed_loop(3) show ?thesis
      by (auto simp: emit_simps announce_simps logs_of_append)
  next
    case (failed_final v w3 e w4)
    from sync_loop_no_response [OF failed_final(1)] final_cursor_summary [OF failed_final(2)]
      failed_final(4) show ?thesis
      by (auto simp: emit_simps announce_simps logs_of_append)
  next
    case (completed v w3 d w4)
    from sync_loop_no_response [OF completed(1)] final_cursor_summary [OF completed(2)]
      completed(4) show ?thesis
      by (auto simp: emit_simps announce_simps logs_of_append)
  qed
  with u show "No_response \<notin> set (logs_of (run_trace env cfg state w))"
    by (auto simp: run_trace_def)
qed

theorem absent_response_unreachable_witness:
  "(1::int) \<le> 3
   \<and> fst (make_api_request_with_retry third_time_env base_url example_ps 3 start_world) \<noteq> Inr None
   \<and> No_response \<notin> set (logs_of (run_trace third_time_env two_per_page None start_world))"
  using absent_response_unreachable [where max_retries = 3 and env = third_time_env
      and url = base_url and ps = example_ps and ?w0.0 = start_world and cfg = two_per_page
      and state = None and w = start_world]
  by simp

section \<open>Failures\<close>

text \<open>
  C6. When every allowed attempt of a request fails, the retry client raises the
  \<^verbatim>\<open>RequestException\<close>. A run in which that happens (it logs \<^verbatim>\<open>All retry attempts
  failed\<close>) ends at once with a \<^verbatim>\<open>RuntimeError\<close> around that exception: the only event
  after the failure is the log line of \<^verbatim>\<open>update\<close>'s handler. Nothing is removed from
  what was written: the checkpoints after the run are those before it followed by those
  the run wrote before the failure.
\<close>

theorem exhausted_retries_surface:
  assumes "1 \<le> max_retries"
    and "\<forall>k < nat max_retries. http env (gets w0 + k) = Fails"
    and "All_retries_failed \<in> set (logs_of (run_trace env cfg state w))"
  shows "fst (make_api_request_with_retry env url ps max_retries w0) = Inl RequestException
         \<and> fst (update env cfg state w) = Inl (RuntimeError RequestException)
         \<and> (\<exists>tr. run_trace env cfg state w =
                   tr @ [Log Severe All_retries_failed,
                         Log Severe (Failed_to_sync RequestException)])
         \<and> checkpoints_of (trace (snd (update env cfg state w))) =
             checkpoints_of (trace w) @ checkpoints_of (run_trace env cfg state w)"
proof (intro conjI)
  from assms(1,2) show "fst (make_api_request_with_retry env url ps max_retries w0) = Inl RequestException"
    unfolding make_api_request_with_retry_def
    by (intro attempts_from_all_fail) simp_all
next
  show "checkpoints_of (trace (snd (update env cfg state w))) =
             checkpoints_of (trace w) @ checkpoints_of (run_trace env cfg state w)"
    by (simp add: update_trace checkpoints_of_append)
next
  obtain res w' where u: "update env cfg state w = (res, w')"
    by (cases "update env cfg state w")
  have rt: "trace w' = trace w @ run_trace env cfg state w"
    using update_trace [of env cfg state w] u by simp
  have "res = Inl (RuntimeError RequestException)
        \<and> (\<exists>tr. run_trace env cfg state w =
                   tr @ [Log Severe All_retries_failed,
                         Log Severe (Failed_to_sync RequestException)])"
    using u
  proof (cases rule: update_cases)
    case (invalid e)
    with rt have "run_trace env cfg state w = [Log Info Starting_sync]"
      by (simp add: emit_simps)
    with assms(3) show ?thesis
      by simp
  next
    case (failed_loop e w3)
    from sync_loop_exhausted [OF failed_loop(1)] obtain tr where
      tr: "trace w3 = trace w @ [Log Info Starting_sync,
              Log Info (if incremental cfg state
                        then Incremental_since (the (last_sync_date (initial_state state)))
                        else Full_sync)] @ tr"
        "if All_retries_failed \<in> set (logs_of tr)
         then Inl e = (Inl RequestException :: error + locals) \<and> tr \<noteq> []
              \<and> last tr = Log Severe All_retries_failed
         else Inl e \<noteq> (Inl RequestException :: error + locals)"
      by (auto simp: announce_simps emit_simps)
    from tr(1) rt failed_loop(3) have run: "run_trace env cfg state w =
        [Log Info Starting_sync,
              Log Info (if incremental cfg state
                        then Incremental_since (the (last_sync_date (initial_state state)))
                        else Full_sync)] @ tr @ [Log Severe (Failed_to_sync e)]"
      by (simp add: emit_simps)
    with assms(3) have "All_retries_failed \<in> set (logs_of tr)"
      by (auto simp: logs_of_append split: if_splits)
    with tr(2) have e: "e = RequestException" and "tr \<noteq> []" "last tr = Log Severe All_retries_failed"
      by simp_all
    then have "tr = butlast tr @ [Log Severe All_retries_failed]"
      by (metis append_butlast_last_id)
    with run e failed_loop(2) show ?thesis
      by (intro conjI exI [where x = "[Log Info Starting_sync,
              Log Info (if incremental cfg state
                        then Incremental_since (the (last_sync_date (initial_state state)))
                        else Full_sync)] @ butlast tr"]) simp_all
  next
    case (failed_final v w3 e w4)
    from sync_loop_exhausted [OF failed_final(1)] obtain tr where
      tr: "trace w3 = trace w @ [Log Info Starting_sync,
              Log Info (if incremental cfg state
                        then Incremental_since (the (last_sync_date (initial_state state)))
                        else Full_sync)] @ tr"
        "All_retries_failed \<notin> set (logs_of tr)"
      by (auto simp: announce_simps emit_simps split: if_splits)
    from tr(1) rt failed_final(4) final_cursor_summary [OF failed_final(2)]
    have "run_trace env cfg state w =
        [Log Info Starting_sync,
              Log Info (if incremental cfg state
                        then Incremental_since (the (last_sync_date (initial_state state)))
                        else Full_sync)] @ tr @ [Log Severe (Failed_to_sync e)]"
      by (simp add: emit_simps)
    with assms(3) tr(2) show ?thesis
      by (auto simp: logs_of_append split: if_splits)
  next
    case (completed v w3 d w4)
    from sync_loop_exhausted [OF completed(1)] obtain tr where
      tr: "trace w3 = trace w @ [Log Info Starting_sync,
              Log Info (if incremental cfg state
                        then Incremental_since (the (last_sync_date (initial_state state)))
                        else Full_sync)] @ tr"
        "All_retries_failed \<notin> set (logs_of tr)"
      by (auto simp: announce_simps emit_simps split: if_splits)
    from tr(1) rt completed(4) final_cursor_summary [OF completed(2)]
    have "run_trace env cfg state w =
        [Log Info Starting_sync,
              Log Info (if incremental cfg state
                        then Incremental_since (the (last_sync_date (initial_state state)))
                        else Full_sync)] @ tr
        @ [Checkpoint \<lparr>last_sync_date = Some d, total_processed = total_v v,
                                 last_cursor = Some (skip_v v)\<rparr>,
           Log Info (Sync_completed (total_v v))]"
      by (simp add: emit_simps)
    with assms(3) tr(2) show ?thesis
      by (auto simp: logs_of_append split: if_splits)
  qed
  with u show "fst (update env cfg state w) = Inl (RuntimeError RequestException)"
    and "\<exists>tr. run_trace env cfg state w =
                   tr @ [Log Severe All_retries_failed,
                         Log Severe (Failed_to_sync RequestException)]"
    by simp_all
qed

theorem exhausted_retries_surface_witness:
  "(1::int) \<le> 3
   \<and> http failing_env (gets (start_world\<lparr>gets := 1\<rparr>) + 0) = Fails
   \<and> http failing_env (gets (start_world\<lparr>gets := 1\<rparr>) + 1) = Fails
   \<and> http failing_env (gets (start_world\<lparr>gets := 1\<rparr>) + 2) = Fails
   \<and> All_retries_failed \<in> set (logs_of (run_trace failing_env one_per_page None start_world))
   \<and> fst (make_api_request_with_retry failing_env base_url example_ps 3 (start_world\<lparr>gets := 1\<rparr>))
       = Inl RequestException
   \<and> fst (update failing_env one_per_page None start_world) = Inl (RuntimeError RequestException)
   \<and> checkpoints_of (trace (snd (update failing_env one_per_page None start_world))) =
       [\<lparr>last_sync_date = Some ''2024-01-01T00:00:00Z'', total_processed = 1,
         last_cursor = Some 1\<rparr>]"
proof -
  have h1: "(1::int) \<le> 3"
    by simp
  have h2: "\<forall>k < nat 3. http failing_env (gets (start_world\<lparr>gets := 1\<rparr>) + k) = Fails"
    by (simp add: failing_env_def start_world_def)
  have h3: "All_retries_failed \<in> set (logs_of (run_trace failing_env one_per_page None start_world))"
    by (simp add: failing_run)
  have h2': "http failing_env (gets (start_world\<lparr>gets := 1\<rparr>) + 0) = Fails"
    "http failing_env (gets (start_world\<lparr>gets := 1\<rparr>) + 1) = Fails"
    "http failing_env (gets (start_world\<lparr>gets := 1\<rparr>) + 2) = Fails"
    by (simp_all add: failing_env_def start_world_def)
  have cps: "checkpoints_of (run_trace failing_env one_per_page None start_world) =
       [\<lparr>last_sync_date = Some ''2024-01-01T00:00:00Z'', total_processed = 1,
         last_cursor = Some 1\<rparr>]"
    by (simp add: failing_run)
  have "trace start_world = []"
    by (simp add: start_world_def)
  with exhausted_retries_surface [OF h1 h2 h3, of base_url example_ps] cps h1 h2' h3
  show ?thesis
    by simp
qed

section \<open>Checkpoints\<close>

text \<open>
  C7. In every run, from any state, the \<^verbatim>\<open>total_processed\<close> of the checkpoints written
  never decreases from one checkpoint to the next, and none is below the
  \<^verbatim>\<open>total_processed\<close> the run started from (0 on a first sync).
\<close>

theorem total_processed_never_decreases:
  "sorted (map total_processed (checkpoints_of (run_trace env cfg state w)))
   \<and> list_all (\<lambda>c. total_processed (initial_state state) \<le> total_processed c)
        (checkpoints_of (run_trace env cfg state w))"
proof -
  obtain res w' where u: "update env cfg state w = (res, w')"
    by (cases "update env cfg state w")
  have rt: "trace w' = trace w @ run_trace env cfg state w"
    using update_trace [of env cfg state w] u by simp
  define start where "start = [Log Info Starting_sync,
              Log Info (if incremental cfg state
                        then Incremental_since (the (last_sync_date (initial_state state)))
                        else Full_sync)]"
  have start: "checkpoints_of start = []"
    by (simp add: start_def)
  have t0: "total_v (initial_locals cfg state) = total_processed (initial_state state)"
    by (simp add: initial_locals_def)
  show ?thesis
    using u
  proof (cases rule: update_cases)
    case (invalid e)
    with rt have "run_trace env cfg state w = [Log Info Starting_sync]"
      by (simp add: emit_simps)
    then show ?thesis by simp
  next
    case (failed_loop e w3)
    from sync_loop_totals [OF failed_loop(1)] obtain tr where
      tr: "trace w3 = trace w @ start @ tr"
        "sorted (map total_processed (checkpoints_of tr))"
        "list_all (\<lambda>c. total_processed (initial_state state) \<le> total_processed c) (checkpoints_of tr)"
      by (auto simp: announce_simps emit_simps start_def t0)
    from tr(1) rt failed_loop(3) have "run_trace env cfg state w =
        start @ tr @ [Log Severe (Failed_to_sync e)]"
      by (simp add: emit_simps)
    with tr(2,3) start show ?thesis
      by (simp add: checkpoints_of_append)
  next
    case (failed_final v w3 e w4)
    from sync_loop_totals [OF failed_final(1)] obtain tr where
      tr: "trace w3 = trace w @ start @ tr"
        "sorted (map total_processed (checkpoints_of tr))"
        "list_all (\<lambda>c. total_processed (initial_state state) \<le> total_processed c) (checkpoints_of tr)"
      by (auto simp: announce_simps emit_simps start_def t0)
    from tr(1) rt failed_final(4) final_cursor_summary [OF failed_final(2)]
    have "run_trace env cfg state w = start @ tr @ [Log Severe (Failed_to_sync e)]"
      by (simp add: emit_simps)
    with tr(2,3) start show ?thesis
      by (simp add: checkpoints_of_append)
  next
    case (completed v w3 d w4)
    from sync_loop_totals [OF completed(1)] obtain tr where
      tr: "trace w3 = trace w @ start @ tr"
        "sorted (map total_processed (checkpoints_of tr))"
        "list_all (\<lambda>c. total_processed (initial_state state) \<le> total_processed c) (checkpoints_of tr)"
        "total_processed (initial_state state) \<le> total_v v"
        "list_all (\<lambda>c. total_processed c \<le> total_v v) (checkpoints_of tr)"
      by (auto simp: announce_simps emit_simps start_def t0)
    from tr(1) rt completed(4) final_cursor_summary [OF completed(2)]
    have "run_trace env cfg state w = start @ tr
        @ [Checkpoint \<lparr>last_sync_date = Some d, total_processed = total_v v,
                                 last_cursor = Some (skip_v v)\<rparr>,
           Log Info (Sync_completed (total_v v))]"
      by (simp add: emit_simps)
    with tr(2-5) start show ?thesis
      by (auto simp: checkpoints_of_append sorted_append list_all_iff)
  qed
qed

text \<open>
  C4, as the code has it. A run that completes writes one checkpoint for every page
  that was full, and the final checkpoint. A page shorter than the limit ends the loop
  before the per-page checkpoint, and at most one page of a run does so. So a run that
  processed \<open>n\<close> pages wrote \<open>n + 1\<close> checkpoints when all of them were full, and \<open>n\<close>
  checkpoints when the last one was short: the state after a short page is written by
  the final checkpoint only.
\<close>

theorem checkpoints_per_page:
  assumes "fst (update env cfg state w) = Inr ()"
  shows "short_pages (run_trace env cfg state w) \<le> 1
         \<and> length (checkpoints_of (run_trace env cfg state w)) =
             (if short_pages (run_trace env cfg state w) = 0
              then pages_processed (run_trace env cfg state w) + 1
              else pages_processed (run_trace env cfg state w))"
proof -
  obtain res w' where u: "update env cfg state w = (res, w')"
    by (cases "update env cfg state w")
  have rt: "trace w' = trace w @ run_trace env cfg state w"
    using update_trace [of env cfg state w] u by simp
  define start where "start = [Log Info Starting_sync,
              Log Info (if incremental cfg state
                        then Incremental_since (the (last_sync_date (initial_state state)))
                        else Full_sync)]"
  from u assms have ok: "res = Inr ()"
    by simp
  from u ok show ?thesis
  proof (cases rule: update_cases)
    case (completed v w3 d w4)
    from sync_loop_counts [OF completed(1)] obtain tr where
      tr: "trace w3 = trace w @ start @ tr"
        "length (checkpoints_of tr) + short_pages tr = pages_processed tr"
        "short_pages tr \<le> 1"
      by (auto simp: announce_simps emit_simps start_def)
    from tr(1) rt completed(4) final_cursor_summary [OF completed(2)]
    have "run_trace env cfg state w = start @ tr
        @ [Checkpoint \<lparr>last_sync_date = Some d, total_processed = total_v v,
                                 last_cursor = Some (skip_v v)\<rparr>,
           Log Info (Sync_completed (total_v v))]"
      by (simp add: emit_simps)
    then have "checkpoints_of (run_trace env cfg state w) = checkpoints_of tr
          @ [\<lparr>last_sync_date = Some d, total_processed = total_v v, last_cursor = Some (skip_v v)\<rparr>]"
      and "short_pages (run_trace env cfg state w) = short_pages tr"
      and "pages_processed (run_trace env cfg state w) = pages_processed tr"
      by (simp_all add: start_def checkpoints_of_append short_pages_def pages_processed_def
            logs_of_append count_list_append')
    with tr(2,3) show ?thesis
      by auto
  qed simp_all
qed

theorem checkpoints_per_page_witness:
  "fst (update regressing_env one_per_page None start_world) = Inr ()
   \<and> short_pages (run_trace regressing_env one_per_page None start_world) = 0
   \<and> pages_processed (run_trace regressing_env one_per_page None start_world) = 2
   \<and> length (checkpoints_of (run_trace regressing_env one_per_page None start_world)) = 2 + 1"
proof -
  have ok: "fst (update regressing_env one_per_page None start_world) = Inr ()"
    by (simp add: regressing_run)
  have counts: "short_pages (run_trace regressing_env one_per_page None start_world) = 0"
    "pages_processed (run_trace regressing_env one_per_page None start_world) = 2"
    by (simp_all add: run_trace_start regressing_run short_pages_def pages_processed_def)
  from checkpoints_per_page [OF ok] ok counts show ?thesis
    by simp
qed

text \<open>
  C4 as stated fails on a run whose only page is short: one page is processed and one
  checkpoint, the final one, is written, not two.
\<close>

theorem short_page_counterexample:
  "fst (update steady_env two_per_page None start_world) = Inr ()
   \<and> pages_processed (run_trace steady_env two_per_page None start_world) = 1
   \<and> length (checkpoints_of (run_trace steady_env two_per_page None start_world)) = 1
   \<and> length (checkpoints_of (run_trace steady_env two_per_page None start_world))
       \<noteq> pages_processed (run_trace steady_env two_per_page None start_world) + 1"
  by (simp add: run_trace_start short_run pages_processed_def)

text \<open>
  C3, as the code has it. With a valid configuration and a state whose
  \<^verbatim>\<open>total_processed\<close> has reached \<^verbatim>\<open>max_records\<close>, a run sends no request and writes
  exactly one checkpoint, the final one. Its \<^verbatim>\<open>last_sync_date\<close> is the reading of the
  clock, whether the state had a cursor or not; its \<^verbatim>\<open>total_processed\<close> is that of the
  state and its \<^verbatim>\<open>last_cursor\<close> is 0.
\<close>

theorem capped_run_only_final_checkpoint:
  assumes "validate_configuration cfg = Inr ()"
    and "max_records_setting cfg \<le> total_processed (initial_state state)"
  shows "fst (update env cfg state w) = Inr ()
         \<and> gets_of (run_trace env cfg state w) = []
         \<and> checkpoints_of (run_trace env cfg state w) =
             [\<lparr>last_sync_date = Some (now env (ticks w)),
               total_processed = total_processed (initial_state state),
               last_cursor = Some 0\<rparr>]
         \<and> run_trace env cfg state w =
             [Log Info Starting_sync,
              Log Info (if incremental cfg state
                        then Incremental_since (the (last_sync_date (initial_state state)))
                        else Full_sync),
              Checkpoint \<lparr>last_sync_date = Some (now env (ticks w)),
                          total_processed = total_processed (initial_state state),
                          last_cursor = Some 0\<rparr>,
              Log Info (Sync_completed (total_processed (initial_state state)))]"
proof -
  define w2 where "w2 = announce cfg state (emit (Log Info Starting_sync) w)"
  have loop: "sync_loop env (max_records_setting cfg) (initial_locals cfg state) w2 =
                (Inr (initial_locals cfg state), w2)"
    using assms(2) by (simp add: sync_loop.simps initial_locals_def)
  have fin: "final_cursor env (initial_locals cfg state) w2 =
               (Inr (now env (ticks w)), w2\<lparr>ticks := ticks w + 1\<rparr>)"
    by (simp add: final_cursor_def initial_locals_def read_clock_def w2_def announce_simps emit_simps)
  have u: "update env cfg state w =
     (Inr (),
      emit (Log Info (Sync_completed (total_processed (initial_state state))))
        (emit (Checkpoint \<lparr>last_sync_date = Some (now env (ticks w)),
                           total_processed = total_processed (initial_state state),
                           last_cursor = Some 0\<rparr>)
           (w2\<lparr>ticks := ticks w + 1\<rparr>)))"
    using assms(1) loop fin
    by (simp add: update_def Let_def w2_def [symmetric]) (simp add: initial_locals_def)
  have rt: "run_trace env cfg state w =
             [Log Info Starting_sync,
              Log Info (if incremental cfg state
                        then Incremental_since (the (last_sync_date (initial_state state)))
                        else Full_sync),
              Checkpoint \<lparr>last_sync_date = Some (now env (ticks w)),
                          total_processed = total_processed (initial_state state),
                          last_cursor = Some 0\<rparr>,
              Log Info (Sync_completed (total_processed (initial_state state)))]"
    by (simp add: run_trace_def u emit_simps w2_def announce_simps)
  show ?thesis
    unfolding rt by (simp add: u)
qed

theorem capped_run_only_final_checkpoint_witness:
  "validate_configuration one_per_page = Inr ()
   \<and> max_records_setting one_per_page \<le> total_processed (initial_state (Some capped_state))
   \<and> fst (update steady_env one_per_page (Some capped_state) start_world) = Inr ()
   \<and> gets_of (run_trace steady_env one_per_page (Some capped_state) start_world) = []
   \<and> checkpoints_of (run_trace steady_env one_per_page (Some capped_state) start_world) =
       [\<lparr>last_sync_date = Some ''2026-11-04T12:00:00+00:00'', total_processed = 10000,
         last_cursor = Some 0\<rparr>]"
proof -
  have h1: "validate_configuration one_per_page = Inr ()"
    by (rule capped_run)
  have h2: "max_records_setting one_per_page \<le> total_processed (initial_state (Some capped_state))"
    by (simp add: capped_run)
  from capped_run_only_final_checkpoint [OF h1 h2, of steady_env start_world] h1 h2
  show ?thesis
    by (simp add: capped_run)
qed

text \<open>
  C3 as stated fails on a state that has a cursor: the final checkpoint holds the
  reading of the clock, not that cursor.
\<close>

theorem capped_run_cursor_counterexample:
  "max_records_setting one_per_page \<le> total_processed capped_state
   \<and> last_sync_date capped_state = Some ''2024-01-01T00:00:00Z''
   \<and> map last_sync_date
        (checkpoints_of (run_trace steady_env one_per_page (Some capped_state) start_world)) =
       [Some ''2026-11-04T12:00:00+00:00'']
   \<and> map last_sync_date
        (checkpoints_of (run_trace steady_env one_per_page (Some capped_state) start_world)) \<noteq>
       [last_sync_date capped_state]"
proof -
  have "run_trace steady_env one_per_page (Some capped_state) start_world =
     [Log Info Starting_sync, Log Info (Incremental_since ''2024-01-01T00:00:00Z''),
      Checkpoint \<lparr>last_sync_date = Some ''2026-11-04T12:00:00+00:00'', total_processed = 10000,
                  last_cursor = Some 0\<rparr>,
      Log Info (Sync_completed 10000)]"
    by code_simp
  then show ?thesis
    by (simp add: capped_run)
qed

text \<open>
  C1, as the code has it. The cursor of a per-page checkpoint is the latest date of the
  page just processed, not of all pages so far, and the final checkpoint takes the clock
  when the last response was empty. So the \<^verbatim>\<open>last_sync_date\<close> values of the checkpoints
  of a run are non-decreasing when every page that is not empty has a record with a
  date of eight characters, the pages come back in non-decreasing order of their latest
  dates, and no date is later, as a string, than the clock.
\<close>

theorem cursor_nondecreasing_for_ordered_pages:
  assumes dated: "\<forall>k r. http env k = Responds r \<longrightarrow> r \<noteq> []
                    \<longrightarrow> (\<exists>d. latest_loop env r None = Inr (Some d))"
    and ordered: "\<forall>i j ri rj di dj. i \<le> j \<longrightarrow> http env i = Responds ri \<longrightarrow> http env j = Responds rj
                    \<longrightarrow> latest_loop env ri None = Inr (Some di)
                    \<longrightarrow> latest_loop env rj None = Inr (Some dj) \<longrightarrow> di \<le> dj"
    and clock: "\<forall>k r d t. http env k = Responds r \<longrightarrow> latest_loop env r None = Inr (Some d)
                    \<longrightarrow> d \<le> now env t"
  shows "sorted (map last_sync_date (checkpoints_of (run_trace env cfg state w)))"
proof -
  obtain res w' where u: "update env cfg state w = (res, w')"
    by (cases "update env cfg state w")
  have rt: "trace w' = trace w @ run_trace env cfg state w"
    using update_trace [of env cfg state w] u by simp
  define start where "start = [Log Info Starting_sync,
              Log Info (if incremental cfg state
                        then Incremental_since (the (last_sync_date (initial_state state)))
                        else Full_sync)]"
  have start: "checkpoints_of start = []"
    by (simp add: start_def)
  define w2 where "w2 = announce cfg state (emit (Log Info Starting_sync) w)"
  have w2: "trace w2 = trace w @ start"
    by (simp add: w2_def start_def announce_simps emit_simps)
  show ?thesis
    using u
  proof (cases rule: update_cases)
    case (invalid e)
    with rt have "run_trace env cfg state w = [Log Info Starting_sync]"
      by (simp add: emit_simps)
    then show ?thesis by simp
  next
    case (failed_loop e w3)
    from sync_loop_cursors [OF dated ordered failed_loop(1)] obtain tr where
      tr: "trace w3 = trace w2 @ tr" "sorted (map last_sync_date (checkpoints_of tr))"
      unfolding w2_def by blast
    from tr(1) rt failed_loop(3) have "run_trace env cfg state w =
        start @ tr @ [Log Severe (Failed_to_sync e)]"
      by (simp add: emit_simps w2)
    with tr(2) start show ?thesis
      by (simp add: checkpoints_of_append)
  next
    case (failed_final v w3 e w4)
    from sync_loop_cursors [OF dated ordered failed_final(1)] obtain tr where
      tr: "trace w3 = trace w2 @ tr" "sorted (map last_sync_date (checkpoints_of tr))"
      unfolding w2_def by blast
    from tr(1) rt failed_final(4) final_cursor_summary [OF failed_final(2)]
    have "run_trace env cfg state w = start @ tr @ [Log Severe (Failed_to_sync e)]"
      by (simp add: emit_simps w2)
    with tr(2) start show ?thesis
      by (simp add: checkpoints_of_append)
  next
    case (completed v w3 d w4)
    from sync_loop_cursors [OF dated ordered completed(1)] obtain tr where
      tr: "trace w3 = trace w2 @ tr" "sorted (map last_sync_date (checkpoints_of tr))"
        "list_all (from_page env (gets w2) (gets w3)) (checkpoints_of tr)"
        "data_v v = data_v (initial_locals cfg state) \<and> checkpoints_of tr = [] \<and> gets w3 = gets w2
         \<or> (\<exists>r. data_v v = Some r \<and> gets w2 < gets w3 \<and> http env (gets w3 - 1) = Responds r)"
      unfolding w2_def by auto
    from tr(1) rt completed(4) final_cursor_summary [OF completed(2)]
    have run: "run_trace env cfg state w = start @ tr
        @ [Checkpoint \<lparr>last_sync_date = Some d, total_processed = total_v v,
                                 last_cursor = Some (skip_v v)\<rparr>,
           Log Info (Sync_completed (total_v v))]"
      by (simp add: emit_simps w2)
    have le: "last_sync_date c \<le> Some d" if "c \<in> set (checkpoints_of tr)" for c
    proof -
      from that tr(3) have "from_page env (gets w2) (gets w3) c"
        by (simp add: list_all_iff)
      then obtain k r dc where k: "k < gets w3" "http env k = Responds r"
        "latest_loop env r None = Inr (Some dc)" "last_sync_date c = Some dc"
        unfolding from_page_def by blast
      from that tr(4) obtain rl where rl: "data_v v = Some rl" "http env (gets w3 - 1) = Responds rl"
        by auto
      from final_cursor_summary [OF completed(2)] rl(1)
      have "rl \<noteq> [] \<and> (latest_loop env rl None = Inr (Some d)
                                  \<or> latest_loop env rl None = Inr None \<and> d = now env (ticks w3))
            \<or> d = now env (ticks w3)"
        by auto
      then have "dc \<le> d"
      proof
        assume a: "rl \<noteq> [] \<and> (latest_loop env rl None = Inr (Some d)
                                  \<or> latest_loop env rl None = Inr None \<and> d = now env (ticks w3))"
        with dated rl(2) obtain d' where "latest_loop env rl None = Inr (Some d')"
          by blast
        with a have "latest_loop env rl None = Inr (Some d)"
          by auto
        moreover from k(1) have "k \<le> gets w3 - 1"
          by simp
        ultimately show ?thesis
          using ordered k(2,3) rl(2) by blast
      next
        assume "d = now env (ticks w3)"
        with clock k(2,3) show ?thesis
          by blast
      qed
      with k(4) show ?thesis
        by simp
    qed
    from run start tr(2) le show ?thesis
      by (auto simp: checkpoints_of_append sorted_append)
  qed
qed

theorem cursor_nondecreasing_for_ordered_pages_witness:
  "map last_sync_date (checkpoints_of (run_trace ordered_env one_per_page None start_world)) =
     [Some ''2024-01-01T00:00:00Z'', Some ''2024-03-15T00:00:00Z'',
      Some ''2026-11-04T12:00:00+00:00'']
   \<and> sorted (map last_sync_date (checkpoints_of (run_trace ordered_env one_per_page None start_world)))"
proof -
  have dated: "\<forall>k r. http ordered_env k = Responds r \<longrightarrow> r \<noteq> []
                    \<longrightarrow> (\<exists>d. latest_loop ordered_env r None = Inr (Some d))"
    using ordered_env_pages latest_of_dated_record by blast
  have ordered: "\<forall>i j ri rj di dj. i \<le> j \<longrightarrow> http ordered_env i = Responds ri
                    \<longrightarrow> http ordered_env j = Responds rj
                    \<longrightarrow> latest_loop ordered_env ri None = Inr (Some di)
                    \<longrightarrow> latest_loop ordered_env rj None = Inr (Some dj) \<longrightarrow> di \<le> dj"
  proof (intro allI impI)
    fix i j ri rj di dj
    assume ij: "i \<le> j" and i: "http ordered_env i = Responds ri"
      and j: "http ordered_env j = Responds rj"
      and di: "latest_loop ordered_env ri None = Inr (Some di)"
      and dj: "latest_loop ordered_env rj None = Inr (Some dj)"
    from ordered_env_cursor [OF i di] ordered_env_cursor [OF j dj] ij show "di \<le> dj"
      by auto
  qed
  have clock: "\<forall>k r d t. http ordered_env k = Responds r
                    \<longrightarrow> latest_loop ordered_env r None = Inr (Some d)
                    \<longrightarrow> d \<le> now ordered_env t"
  proof (intro allI impI)
    fix k r d t
    assume k: "http ordered_env k = Responds r"
      and d: "latest_loop ordered_env r None = Inr (Some d)"
    have "now ordered_env t = ''2026-11-04T12:00:00+00:00''"
      by (simp add: ordered_env_def)
    with ordered_env_cursor [OF k d] show "d \<le> now ordered_env t"
      by auto
  qed
  from cursor_nondecreasing_for_ordered_pages [OF dated ordered clock, of one_per_page None start_world]
  show ?thesis
    by (simp add: ordered_run)
qed

text \<open>
  C1 as stated fails when a later page holds earlier dates: with a page of March
  followed by a page of January the cursor goes back from the first checkpoint to the
  second.
\<close>

theorem cursor_regresses_counterexample:
  "map last_sync_date (checkpoints_of (run_trace regressing_env one_per_page None start_world)) =
     [Some ''2024-03-15T00:00:00Z'', Some ''2024-01-01T00:00:00Z'',
      Some ''2026-11-04T12:00:00+00:00'']
   \<and> \<not> sorted (map last_sync_date
                  (checkpoints_of (run_trace regressing_env one_per_page None start_world)))"
  by (simp add: run_trace_start regressing_run)

section \<open>The cursor extractor\<close>

lemma latest_loop_strings:
  assumes "list_all string_dated records"
  shows "latest_loop env records acc = Inr (foldl later acc (dates_of records))"
  using assms
proof (induction records arbitrary: acc)
  case Nil
  then show ?case by simp
next
  case (Cons r records)
  have step: "later acc d = (if acc = None \<or> the acc < d then Some d else acc)" for d
    by (cases acc) auto
  from Cons.prems have rest: "latest_loop env records a = Inr (foldl later a (dates_of records))" for a
    using Cons.IH by simp
  from Cons.prems have r: "string_dated r"
    by simp
  show ?case
  proof (cases "py_get r ''report_date''")
    case None
    then show ?thesis by (simp add: rest)
  next
    case (Some v)
    with r show ?thesis
      by (cases v) (auto simp: rest step normalized_def)
  qed
qed

lemma foldl_later:
  "foldl later acc ds = (if ds = [] then acc
     else Some (Max (set ds \<union> (case acc of None \<Rightarrow> {} | Some a \<Rightarrow> {a}))))"
proof (induction ds arbitrary: acc)
  case Nil
  then show ?case by simp
next
  case (Cons d ds)
  show ?case
  proof (cases acc)
    case None
    then show ?thesis
      by (simp add: Cons.IH insert_commute)
  next
    case (Some a)
    then show ?thesis
      by (auto simp: Cons.IH max_def not_less insert_commute antisym
               intro!: arg_cong [where f = Max])
  qed
qed

text \<open>
  What the cursor extractor does on a batch whose \<^verbatim>\<open>report_date\<close> fields are strings:
  it skips those whose length is not 8, and returns the greatest normalized form of the
  others, or the reading of the clock when there is none.
\<close>

lemma cursor_of_string_dates:
  assumes "list_all string_dated records"
  shows "get_latest_report_date env records w =
           (if dates_of records = [] then (Inr (now env (ticks w)), w\<lparr>ticks := ticks w + 1\<rparr>)
            else (Inr (Max (set (dates_of records))), w))"
proof (cases "dates_of records = []")
  case True
  then show ?thesis
    by (simp add: get_latest_report_date_def latest_loop_strings [OF assms] read_clock_def)
next
  case False
  have l: "latest_loop env records None = Inr (Some (Max (set (dates_of records))))"
    using False by (simp add: latest_loop_strings [OF assms] foldl_later)
  from latest_loop_nonempty [OF l] have "Max (set (dates_of records)) \<noteq> []"
    by simp
  with False l show ?thesis
    by (simp add: get_latest_report_date_def)
qed

text \<open>
  C2 on the code. A \<^verbatim>\<open>report_date\<close> of eight characters that are not digits is not
  skipped: it is cut into \<^verbatim>\<open>YYYY-MM-DD\<close> like any other and, being greater as a string
  than a date of digits, becomes the cursor; when it is the only entry the clock is not
  used. A \<^verbatim>\<open>report_date\<close> that is a number ends the scan with a \<^verbatim>\<open>TypeError\<close>.
\<close>

theorem malformed_date_not_skipped:
  "get_latest_report_date env
     [[(''report_date'', JStr ''20240101'')], [(''report_date'', JStr ''abcdefgh'')]] w =
     (Inr ''abcd-ef-ghT00:00:00Z'', w)
   \<and> get_latest_report_date env [[(''report_date'', JStr ''abcdefgh'')]] w =
     (Inr ''abcd-ef-ghT00:00:00Z'', w)
   \<and> get_latest_report_date env [[(''report_date'', JInt 20240101)]] w = (Inl TypeError, w)"
  by (simp add: get_latest_report_date_def py_get_def)

section \<open>The flattener\<close>

lemma foldl_upd_distinct:
  "distinct (map fst acc) \<Longrightarrow> distinct (map fst (foldl upd acc xs))"
  by (induction xs arbitrary: acc) (auto simp: AList.distinct_update)

lemma py_dict_distinct: "distinct (map fst (py_dict xs))"
  by (simp add: py_dict_def foldl_upd_distinct)

lemma foldl_upd_fresh:
  "distinct (map fst xs) \<Longrightarrow> fst ` set acc \<inter> fst ` set xs = {} \<Longrightarrow> foldl upd acc xs = acc @ xs"
proof (induction xs arbitrary: acc)
  case Nil
  then show ?case by simp
next
  case (Cons x xs)
  obtain k v where x: "x = (k, v)" by (cases x)
  from Cons.prems have "k \<notin> fst ` set acc" by (auto simp: x)
  then have u: "AList.update k v acc = acc @ [(k, v)]"
    by (induction acc) auto
  show ?case using Cons.prems Cons.IH [of "acc @ [(k, v)]"]
    by (auto simp: x u)
qed

lemma py_dict_id: "distinct (map fst xs) \<Longrightarrow> py_dict xs = xs"
  using foldl_upd_fresh [of xs "[]"] by (simp add: py_dict_def)

lemma foldl_upd_values: "set (foldl upd acc xs) \<subseteq> set acc \<union> set xs"
proof (induction xs arbitrary: acc)
  case Nil
  then show ?case by simp
next
  case (Cons x xs)
  obtain k v where x: "x = (k, v)" by (cases x)
  have "set (AList.update k v acc) \<subseteq> insert (k, v) (set acc)"
    by (induction acc) auto
  with Cons.IH [of "AList.update k v acc"] show ?case
    by (auto simp: x)
qed

lemma py_dict_subset: "set (py_dict xs) \<subseteq> set xs"
  using foldl_upd_values [of "[]" xs] by (simp add: py_dict_def)

lemma flatten_items_scalar: "\<forall>(k, v) \<in> set (flatten_items d p s). scalar v"
proof (induction d p s rule: flatten_items.induct)
  case (1 p s)
  then show ?case by simp
next
  case (2 k v rest p s)
  show ?case
  proof (cases v)
    case (JDict d')
    with 2 show ?thesis
      by (fastforce simp: Let_def dest: subsetD [OF py_dict_subset])
  qed (use 2 in \<open>auto simp: Let_def\<close>)
qed

lemma flatten_items_flat:
  "list_all (\<lambda>(k, v). scalar v) d \<Longrightarrow> flatten_items d [] s = d"
  by (induction d) (auto split: json.splits)

lemma update_swap_present:
  "k \<in> fst ` set al \<Longrightarrow> k \<noteq> k' \<Longrightarrow>
   AList.update k v (AList.update k' v' al) = AList.update k' v' (AList.update k v al)"
  by (induction al) auto

lemma update_foldl_present:
  "k \<in> fst ` set acc \<Longrightarrow> k \<notin> fst ` set c \<Longrightarrow>
   AList.update k v (foldl upd acc c) = foldl upd (AList.update k v acc) c"
proof (induction c arbitrary: acc)
  case Nil
  then show ?case by simp
next
  case (Cons x c)
  obtain k' v' where x: "x = (k', v')" by (cases x)
  from Cons.prems have ne: "k \<noteq> k'" and notin: "k \<notin> fst ` set c"
    by (auto simp: x)
  from Cons.prems(1) have "k \<in> fst ` set (AList.update k' v' acc)"
    by (simp add: AList.dom_update)
  from Cons.IH [OF this notin] show ?case
    by (simp add: x update_swap_present [OF Cons.prems(1) ne])
qed

lemma foldl_upd_update:
  "distinct (map fst c) \<Longrightarrow>
   foldl upd acc (AList.update k v c) = AList.update k v (foldl upd acc c)"
proof (induction c arbitrary: acc)
  case Nil
  then show ?case by simp
next
  case (Cons x c)
  obtain k' v' where x: "x = (k', v')" by (cases x)
  show ?case
  proof (cases "k' = k")
    case True
    from Cons.prems have "k \<notin> fst ` set c"
      by (auto simp: x True)
    moreover have "k \<in> fst ` set (AList.update k v' acc)"
      by (simp add: AList.dom_update)
    ultimately have "AList.update k v (foldl upd (AList.update k v' acc) c)
        = foldl upd (AList.update k v (AList.update k v' acc)) c"
      by (rule update_foldl_present [rotated])
    then show ?thesis
      by (simp add: x True)
  next
    case False
    with Cons show ?thesis
      by (simp add: x)
  qed
qed

lemma foldl_upd_py_dict: "foldl upd acc (py_dict b) = foldl upd acc b"
proof (induction b rule: rev_induct)
  case Nil
  then show ?case by (simp add: py_dict_def)
next
  case (snoc x b)
  obtain k v where x: "x = (k, v)" by (cases x)
  have "py_dict (b @ [x]) = AList.update k v (py_dict b)"
    by (simp add: py_dict_def x)
  with snoc show ?case
    by (simp add: foldl_upd_update [OF py_dict_distinct] x)
qed

lemma py_dict_append: "py_dict (a @ b) = foldl upd (py_dict a) b"
  by (simp add: py_dict_def)

lemma py_dict_idem: "py_dict (py_dict a) = py_dict a"
  by (simp add: py_dict_id py_dict_distinct)

lemma py_dict_cong:
  assumes "py_dict a = py_dict a'" and "py_dict b = py_dict b'"
  shows "py_dict (py_dict a @ b) = py_dict (a' @ b')"
proof -
  have "py_dict (py_dict a @ b) = foldl upd (py_dict a) b"
    by (simp add: py_dict_append py_dict_idem)
  also have "\<dots> = foldl upd (py_dict a') (py_dict b')"
    using assms foldl_upd_py_dict [of "py_dict a" b] by simp
  also have "\<dots> = py_dict (a' @ b')"
    by (simp add: py_dict_append foldl_upd_py_dict)
  finally show ?thesis .
qed

lemma py_dict_cong_single:
  assumes "py_dict b = py_dict b'"
  shows "py_dict (x # b) = py_dict (x # b')"
proof -
  have "py_dict ([x] @ b) = foldl upd (py_dict [x]) (py_dict b)"
    by (simp only: py_dict_append foldl_upd_py_dict)
  also have "\<dots> = py_dict ([x] @ b')"
    by (simp only: assms py_dict_append foldl_upd_py_dict)
  finally show ?thesis by simp
qed

lemma leaves_nonempty: "(p, v) \<in> set (leaves d) \<Longrightarrow> p \<noteq> []"
  by (induction d rule: leaves.induct) (auto split: json.splits)

lemma join_Cons: "p \<noteq> [] \<Longrightarrow> join sep (k # p) = k @ sep @ join sep p"
  by (cases p) simp_all

lemma flatten_items_nested:
  assumes "parent_key \<noteq> []"
  shows "py_dict (flatten_items d parent_key sep) =
         py_dict (map (\<lambda>(p, v). (parent_key @ sep @ join sep p, stored v)) (leaves d))"
  using assms
proof (induction d parent_key sep rule: flatten_items.induct)
  case (1 parent_key sep)
  then show ?case by simp
next
  case (2 k v rest parent_key sep)
  define new_key where "new_key = parent_key @ sep @ k"
  have nk: "new_key \<noteq> []"
    using "2.prems" by (simp add: new_key_def)
  have rest: "py_dict (flatten_items rest parent_key sep) =
         py_dict (map (\<lambda>(p, v). (parent_key @ sep @ join sep p, stored v)) (leaves rest))"
    using "2.IH"(2) "2.prems" by simp
  show ?case
  proof (cases v)
    case (JDict d')
    have inner: "py_dict (flatten_items d' new_key sep) =
         py_dict (map (\<lambda>(p, v). (new_key @ sep @ join sep p, stored v)) (leaves d'))"
      using "2.IH"(1) [OF _ JDict nk] "2.prems" by (simp add: new_key_def)
    have keys: "map (\<lambda>(p, v). (new_key @ sep @ join sep p, stored v)) (leaves d') =
          map (\<lambda>(p, v). (parent_key @ sep @ join sep p, stored v))
            (map (\<lambda>(p, x). (k # p, x)) (leaves d'))"
      by (auto simp: new_key_def join_Cons dest: leaves_nonempty)
    from py_dict_cong [OF inner rest] show ?thesis
      using "2.prems" by (simp add: JDict new_key_def [symmetric] keys)
  qed (use rest "2.prems" in \<open>auto intro: py_dict_cong_single\<close>)
qed

lemma flatten_items_top:
  assumes "\<forall>(k, v) \<in> set d. is_dict v \<longrightarrow> k \<noteq> []"
  shows "py_dict (flatten_items d [] sep) =
         py_dict (map (\<lambda>(p, v). (join sep p, stored v)) (leaves d))"
  using assms
proof (induction d)
  case Nil
  then show ?case by simp
next
  case (Cons e rest)
  obtain k v where e: "e = (k, v)" by (cases e)
  from Cons have rest: "py_dict (flatten_items rest [] sep) =
         py_dict (map (\<lambda>(p, v). (join sep p, stored v)) (leaves rest))"
    by simp
  show ?case
  proof (cases v)
    case (JDict d')
    with Cons.prems have k: "k \<noteq> []"
      by (simp add: e)
    have keys: "map (\<lambda>(p, v). (k @ sep @ join sep p, stored v)) (leaves d') =
          map (\<lambda>(p, v). (join sep p, stored v)) (map (\<lambda>(p, x). (k # p, x)) (leaves d'))"
      by (auto simp: join_Cons dest: leaves_nonempty)
    from py_dict_cong [OF flatten_items_nested [OF k, of d' sep] rest] show ?thesis
      by (simp add: e JDict keys)
  qed (use rest in \<open>auto simp: e intro: py_dict_cong_single\<close>)
qed

text \<open>
  C8. The result of \<^verbatim>\<open>flatten_dict\<close> never holds a list or a dictionary, and flattening
  it again gives it back unchanged (whatever the parent key and separator of the first
  call, and the separator of the second).
\<close>

theorem flatten_dict_idempotent:
  "list_all (\<lambda>(k, v). scalar v) (flatten_dict d parent_key sep)
   \<and> flatten_dict (flatten_dict d parent_key sep) [] sep' = flatten_dict d parent_key sep"
proof -
  have flat: "list_all (\<lambda>(k, v). scalar v) (flatten_dict d parent_key sep)"
    unfolding flatten_dict_def list_all_iff
    using flatten_items_scalar [of d parent_key sep] py_dict_subset [of "flatten_items d parent_key sep"]
    by blast
  from flatten_items_flat [OF flat] show ?thesis
    using flat py_dict_id [OF py_dict_distinct]
    by (simp add: flatten_dict_def)
qed

text \<open>
  C9, as the code has it. When no top-level key of the input that holds a nested
  dictionary is the empty string, \<^verbatim>\<open>flatten_dict\<close> returns the dictionary of the leaves of its input: each
  under its key path joined with \<^verbatim>\<open>_\<close>, a list that is not empty as its
  \<^verbatim>\<open>json.dumps\<close> text, an empty list as \<^verbatim>\<open>None\<close>, a scalar unchanged; of two leaves with
  the same joined key the later one is kept.
\<close>

theorem flatten_dict_leaves:
  assumes "\<forall>(k, v) \<in> set d. is_dict v \<longrightarrow> k \<noteq> []"
  shows "flatten_dict d [] ''_'' = flatten_spec d"
  using flatten_items_top [OF assms, of "''_''"]
  by (simp add: flatten_dict_def flatten_spec_def)

theorem flatten_dict_leaves_witness:
  "flatten_dict nested_example [] ''_'' = flatten_spec nested_example
   \<and> flatten_dict nested_example [] ''_'' =
       [(''a_b'', JInt 1),
        (''codes'', JStr [CHR 0x5B, CHR 0x22, CHR ''x'', CHR 0x22, CHR '','', CHR '' '', CHR ''2'', CHR 0x5D]),
        (''none'', JNull),
        (''status'', JStr ''Ongoing'')]"
proof -
  have h: "\<forall>(k, v) \<in> set nested_example. is_dict v \<longrightarrow> k \<noteq> []"
    by (simp add: nested_example_def)
  have "flatten_spec nested_example =
       [(''a_b'', JInt 1),
        (''codes'', JStr [CHR 0x5B, CHR 0x22, CHR ''x'', CHR 0x22, CHR '','', CHR '' '', CHR ''2'', CHR 0x5D]),
        (''none'', JNull),
        (''status'', JStr ''Ongoing'')]"
    by code_simp
  with flatten_dict_leaves [OF h] show ?thesis
    by simp
qed

text \<open>
  C9 as stated fails for a nested dictionary under the empty key: the code takes an
  empty parent key for no parent, so the key of the leaf is \<^verbatim>\<open>b\<close>, not \<^verbatim>\<open>_b\<close>.
\<close>

theorem empty_key_counterexample:
  "flatten_dict [('''', JDict [(''b'', JInt 1)])] [] ''_'' = [(''b'', JInt 1)]
   \<and> flatten_spec [('''', JDict [(''b'', JInt 1)])] = [(''_b'', JInt 1)]
   \<and> flatten_dict [('''', JDict [(''b'', JInt 1)])] [] ''_'' \<noteq> flatten_spec [('''', JDict [(''b'', JInt 1)])]"
  by (simp add: flatten_dict_def flatten_spec_def py_dict_def)

end
